theory Spec2Isabelle
  imports Complex_Main "HOL-Library.Char_ord" "HOL-Library.List_Lexorder" "HOL-Library.Multiset"
    "HOL-Library.Log_Nat"
begin

section \<open>The parameter file as a stream of tokens\<close>

text \<open>
  \<^verbatim>\<open>metropolis.cpp\<close> reads its parameter file with \<^verbatim>\<open>fin >> x\<close>, which skips white space
  (line breaks included) and then extracts one item, and with \<^verbatim>\<open>getline\<close>, which drops the
  rest of the current line. The file is therefore modelled as a list of lines, each line a
  list of white-space separated tokens.

  Numbers are C++ \<^verbatim>\<open>double\<close>s in the program. Here they are rationals: sums, comparisons and
  the division by 256 are exact, and rounding is not part of the model. The extraction of a
  number from a token is a library routine that is not part of the repository; it is a
  parameter of the parser (\<open>read_double\<close>, \<open>read_unsigned\<close>) and is applied to whole
  tokens: a token is either read as a number and consumed, or it is left in the stream.
\<close>

type_synonym tokens = "string list list"

record Spin =
  spin_x :: nat
  spin_y :: nat
  spin_z :: nat
  spin_norm :: rat

record lib =
  read_double :: "string \<Rightarrow> rat option"
  read_unsigned :: "string \<Rightarrow> nat option"
  uninit_spin :: Spin

fun next_word :: "tokens \<Rightarrow> (string \<times> tokens) option" where
  "next_word [] = None"
| "next_word ([] # ls) = next_word ls"
| "next_word ((t # ts) # ls) = Some (t, ts # ls)"

definition next_num :: "(string \<Rightarrow> 'a option) \<Rightarrow> tokens \<Rightarrow> ('a \<times> tokens) option" where
  "next_num rd s =
     (case next_word s of
        None \<Rightarrow> None
      | Some (t, s') \<Rightarrow> (case rd t of None \<Rightarrow> None | Some v \<Rightarrow> Some (v, s')))"

definition ssize :: "tokens \<Rightarrow> nat" where
  "ssize s = sum_list (map (\<lambda>l. Suc (length l)) s)"

lemma ssize_Cons [simp]: "ssize (l # ls) = Suc (length l) + ssize ls"
  by (simp add: ssize_def)

lemma next_word_ssize: "next_word s = Some (t, s') \<Longrightarrow> ssize s' < ssize s"
  by (induction s rule: next_word.induct) (auto simp: ssize_def)

lemma next_num_ssize: "next_num rd s = Some (v, s') \<Longrightarrow> ssize s' < ssize s"
  by (auto simp: next_num_def split: option.splits dest: next_word_ssize)

text \<open>\<^verbatim>\<open>while( fin >> val ) vec.push_back(val);\<close> of the \<^verbatim>\<open>{\<close> operator.\<close>

function read_vals :: "(string \<Rightarrow> rat option) \<Rightarrow> rat list \<Rightarrow> tokens \<Rightarrow> rat list \<times> tokens" where
  "read_vals rd vec s =
     (case next_num rd s of
        None \<Rightarrow> (vec, s)
      | Some (v, s') \<Rightarrow> read_vals rd (vec @ [v]) s')"
  by pat_completeness auto
termination
  by (relation "measure (\<lambda>(rd, vec, s). ssize s)") (auto dest: next_num_ssize)

declare read_vals.simps [simp del]

subsection \<open>The arithmetic of \<^verbatim>\<open>double\<close>\<close>

text \<open>
  The numbers of the parameter file are held in variables of type \<^verbatim>\<open>double\<close>, the binary
  format of IEEE 754 with 53 significant bits and exponents from \<open>-1022\<close> to \<open>1023\<close>. A finite
  value of the format is a rational number, and the lists of values are lists of rationals.
  The sum and the quotient of two such values are the exact result rounded to the nearest
  value of the format, the one with the even significand when two are equally near, or an
  infinity when the rounded result is beyond the largest finite value. Only \<^verbatim>\<open>+\<close>, \<^verbatim>\<open>/\<close> and
  \<^verbatim>\<open><\<close> on finite operands occur where the file is read, so no value that is not a number arises.

  \<open>pow2 e\<close> is \<open>2\<close> to the power \<open>e\<close>, and \<open>ilog2 x\<close> the exponent \<open>e\<close> with
  \<open>pow2 e \<le> \<bar>x\<bar> < pow2 (e + 1)\<close> for \<open>x\<close> other than 0: with \<open>\<bar>x\<bar> = a / b\<close> in lowest terms it
  is the difference of the numbers of bits of \<open>a\<close> and \<open>b\<close>, or one less.
\<close>

datatype double = Finite rat | PInf | NInf

definition pow2 :: "int \<Rightarrow> rat" where
  "pow2 e = (if 0 \<le> e then 2 ^ nat e else 1 / 2 ^ nat (- e))"

definition ilog2 :: "rat \<Rightarrow> int" where
  "ilog2 x =
     (case quotient_of \<bar>x\<bar> of
        (a, b) \<Rightarrow> (let d = bitlen a - bitlen b in if pow2 d \<le> \<bar>x\<bar> then d else d - 1))"

definition round_half_even :: "rat \<Rightarrow> int" where
  "round_half_even y =
     (let f = \<lfloor>y\<rfloor>; r = y - of_int f
      in if r < 1 / 2 then f else if 1 / 2 < r then f + 1 else if even f then f else f + 1)"

text \<open>
  \<open>fl x\<close> is \<open>x\<close> rounded to 53 significant bits, or to a multiple of \<open>pow2 (-1074)\<close> where
  \<open>x\<close> is too small for that (the subnormal values), with no bound on the exponent from
  above; \<open>round_double\<close> is the rounding of the format.
\<close>

definition fl :: "rat \<Rightarrow> rat" where
  "fl x =
     (if x = 0 then 0
      else (let q = pow2 (max (ilog2 x - 52) (- 1074)) in of_int (round_half_even (x / q)) * q))"

definition round_double :: "rat \<Rightarrow> double" where
  "round_double x =
     (let y = fl x
      in if 2 ^ 1024 \<le> y then PInf else if y \<le> - (2 ^ 1024) then NInf else Finite y)"

fun dless :: "double \<Rightarrow> double \<Rightarrow> bool" where
  "dless (Finite a) (Finite b) = (a < b)"
| "dless (Finite a) PInf = True"
| "dless NInf (Finite b) = True"
| "dless NInf PInf = True"
| "dless a b = False"

text \<open>
  The test and the loop of the \<^verbatim>\<open>:\<close> operator, entered with the limit already moved by the
  tolerance:
  \<^verbatim>\<open>while( (inc > 0 && val < lim) || (inc < 0 && val > lim) ) { vec.push_back(val); val += inc; }\<close>
  When \<^verbatim>\<open>val += inc\<close> overflows, \<^verbatim>\<open>val\<close> is the infinity of the sign of \<^verbatim>\<open>inc\<close>, which fails the
  test, so the loop ends there. When \<^verbatim>\<open>val += inc\<close> leaves \<^verbatim>\<open>val\<close> as it was, the loop does not
  end; this is the result \<open>None\<close>.
\<close>

definition inside :: "rat \<Rightarrow> double \<Rightarrow> rat \<Rightarrow> bool" where
  "inside inc lmt val \<longleftrightarrow> (inc > 0 \<and> dless (Finite val) lmt) \<or> (inc < 0 \<and> dless lmt (Finite val))"

partial_function (option) range_loop ::
  "rat list \<Rightarrow> rat \<Rightarrow> double \<Rightarrow> rat \<Rightarrow> rat list option" where
  "range_loop vec val lmt inc =
     (if inside inc lmt val
      then (case round_double (val + inc) of
              Finite v \<Rightarrow> range_loop (vec @ [val]) v lmt inc
            | _ \<Rightarrow> Some (vec @ [val]))
      else Some vec)"

declare range_loop.simps [code]


section \<open>Containers of the standard library\<close>

text \<open>
  \<^verbatim>\<open>std::map<string, T>\<close> and \<^verbatim>\<open>std::set<string>\<close> keep their keys in increasing order
  (strings compared byte by byte, a proper prefix first), and the program iterates over
  them. A map is an association list kept in that order, a set a list kept in that order.
\<close>

type_synonym 'v smap = "(string \<times> 'v) list"

fun sm_put :: "string \<Rightarrow> 'v \<Rightarrow> 'v smap \<Rightarrow> 'v smap" where
  "sm_put k v [] = [(k, v)]"
| "sm_put k v ((k', v') # m) =
     (if k < k' then (k, v) # (k', v') # m
      else if k = k' then (k, v) # m
      else (k', v') # sm_put k v m)"

definition sm_find :: "'v smap \<Rightarrow> string \<Rightarrow> 'v option" where
  "sm_find m k = map_of m k"

text \<open>\<^verbatim>\<open>m[k]\<close> read: the stored value, or a value-initialised one.\<close>

definition sm_get :: "'v \<Rightarrow> 'v smap \<Rightarrow> string \<Rightarrow> 'v" where
  "sm_get dflt m k = (case map_of m k of None \<Rightarrow> dflt | Some v \<Rightarrow> v)"

fun ss_insert :: "string \<Rightarrow> string list \<Rightarrow> string list" where
  "ss_insert k [] = [k]"
| "ss_insert k (k' # ks) =
     (if k < k' then k # k' # ks
      else if k = k' then k' # ks
      else k' # ss_insert k ks)"

section \<open>The parser of the parameter file\<close>

text \<open>
  What is thrown inside the parsing block is an \<^verbatim>\<open>int\<close>; the handler returns it from
  \<^verbatim>\<open>main\<close> with bit \<^verbatim>\<open>0x10\<close> set. Before \<^verbatim>\<open>throw 7\<close> the program writes to \<^verbatim>\<open>cerr\<close> the label,
  the key, the list and both sizes; the error value carries them. Reading one character
  before the start of an empty string (\<^verbatim>\<open>str[last]\<close> with \<^verbatim>\<open>last == -1\<close>) has no defined
  behaviour in C++ and is an outcome of its own. So is a \<^verbatim>\<open>:\<close> operator whose loop does not
  end: nothing is thrown and the program reads no further.
\<close>

datatype parse_error =
  Throw nat
| InconsistentSize string string "rat list" nat nat
| Undefined_Behaviour
| Never_ends

fun thrown :: "parse_error \<Rightarrow> nat" where
  "thrown (Throw e) = e"
| "thrown (InconsistentSize lbl key vec new old) = 7"
| "thrown Undefined_Behaviour = 0"
| "thrown Never_ends = 0"

text \<open>
  The \<^verbatim>\<open>do { ... } while (vec.size() <= 0)\<close> loop that reads the label and the operator of
  one parameter. It returns the list, the label (empty when none was given), the last
  content of \<^verbatim>\<open>str\<close> and the rest of the stream. In \<^verbatim>\<open>lim += inc / 256\<close> the quotient is
  rounded (it is never beyond the largest finite value), and then the sum.
\<close>

function parse_ops ::
  "lib \<Rightarrow> rat list \<Rightarrow> string \<Rightarrow> tokens \<Rightarrow> parse_error + (rat list \<times> string \<times> string \<times> tokens)"
where
  "parse_ops L vec lbl s =
     (case next_word s of
        None \<Rightarrow> Inl (Throw 1)
      | Some (str, s1) \<Rightarrow>
          if str = ''='' then
            (case next_num (read_double L) s1 of
               None \<Rightarrow> Inl (Throw 5)
             | Some (val, s2) \<Rightarrow> Inr (vec @ [val], lbl, str, s2))
          else if str = '':'' then
            (case next_num (read_double L) s1 of
               None \<Rightarrow> Inl (Throw 2)
             | Some (val, s2) \<Rightarrow>
                (case next_num (read_double L) s2 of
                   None \<Rightarrow> Inl (Throw 2)
                 | Some (lmt, s3) \<Rightarrow>
                    (case next_num (read_double L) s3 of
                       None \<Rightarrow> Inl (Throw 2)
                     | Some (inc, s4) \<Rightarrow>
                        if inc = 0 then Inl (Throw 2)
                        else
                          (case range_loop vec val (round_double (lmt + fl (inc / 256))) inc of
                             None \<Rightarrow> Inl Never_ends
                           | Some vec' \<Rightarrow>
                               if length vec' \<le> 0 then parse_ops L vec' lbl s4
                               else Inr (vec', lbl, str, s4)))))
          else if str = ''{'' then
            (case read_vals (read_double L) vec s1 of
               (vec', s2) \<Rightarrow>
                 (case next_word s2 of
                    None \<Rightarrow> Inl (Throw 3)
                  | Some (str', s3) \<Rightarrow>
                      if str' \<noteq> ''}'' then Inl (Throw 3)
                      else if length vec' \<le> 0 then Inl (Throw 6)
                      else Inr (vec', lbl, str', s3)))
          else if length lbl = 0 then parse_ops L vec str s1
          else Inl (Throw 4))"
  by pat_completeness auto
termination
proof (relation "measure (\<lambda>(L, vec, lbl, s). ssize s)", goal_cases)
  case 1
  show ?case by simp
next
  case (2 L vec lbl s x2 str s1 x2a val s2 x2b lmt s3 x2c inc s4 vec')
  then have "ssize s4 < ssize s3" "ssize s3 < ssize s2" "ssize s2 < ssize s1" "ssize s1 < ssize s"
    by (auto dest: next_num_ssize next_word_ssize)
  then show ?case by simp
next
  case (3 L vec lbl s x2 str s1)
  then show ?case by (auto dest: next_word_ssize)
qed

declare parse_ops.simps [simp del]

lemma read_vals_ssize: "read_vals rd vec s = (vec', s') \<Longrightarrow> ssize s' \<le> ssize s"
proof (induction rd vec s rule: read_vals.induct)
  case (1 rd vec s)
  show ?case
  proof (cases "next_num rd s")
    case None
    with "1.prems" show ?thesis by (simp add: read_vals.simps)
  next
    case (Some a)
    obtain v s1 where a: "a = (v, s1)" by (cases a)
    from "1.prems" Some a have "read_vals rd (vec @ [v]) s1 = (vec', s')"
      by (simp add: read_vals.simps)
    from "1.IH" [OF Some a [symmetric] this] next_num_ssize [of rd s v s1] Some a
    show ?thesis by simp
  qed
qed

lemma parse_ops_ssize:
  "parse_ops L vec lbl s = Inr (vec', lbl', str', s') \<Longrightarrow> ssize s' < ssize s"
proof (induction L vec lbl s rule: parse_ops.induct)
  case (1 L vec lbl s)
  from "1.prems" obtain str s1 where w: "next_word s = Some (str, s1)"
    by (cases "next_word s") (auto simp: parse_ops.simps)
  note lt = next_word_ssize [OF w]
  consider (eq) "str = ''=''" | (colon) "str = '':''" | (brace) "str = ''{''"
    | (label) "str \<noteq> ''=''" "str \<noteq> '':''" "str \<noteq> ''{''"
    by blast
  then show ?case
  proof cases
    case eq
    with "1.prems" w lt show ?thesis
      by (auto simp: parse_ops.simps split: option.splits dest!: next_num_ssize)
  next
    case colon
    from "1.prems" w colon obtain val s2 lmt s3 inc s4 where
      n: "next_num (read_double L) s1 = Some (val, s2)"
         "next_num (read_double L) s2 = Some (lmt, s3)"
         "next_num (read_double L) s3 = Some (inc, s4)" and nz: "inc \<noteq> 0"
      by (auto simp: parse_ops.simps split: option.splits if_splits)
    from n have lt4: "ssize s4 < ssize s1"
      by (auto dest!: next_num_ssize)
    from "1.prems" w colon n nz obtain vs where
      r: "range_loop vec val (round_double (lmt + fl (inc / 256))) inc = Some vs"
      by (cases "range_loop vec val (round_double (lmt + fl (inc / 256))) inc")
        (simp_all add: parse_ops.simps [of L vec lbl s])
    show ?thesis
    proof (cases "length vs \<le> 0")
      case True
      with "1.prems" w colon n nz r
      have "parse_ops L vs lbl s4 = Inr (vec', lbl', str', s')"
        by (simp add: parse_ops.simps [of L vec lbl s])
      from "1.IH"(1) [OF w refl _ colon n(1) refl n(2) refl n(3) refl nz r True this]
      show ?thesis using lt4 lt colon by simp
    next
      case False
      with "1.prems" w colon n nz r have "s' = s4"
        by (simp add: parse_ops.simps [of L vec lbl s])
      then show ?thesis using lt4 lt by simp
    qed
  next
    case brace
    obtain vs s2 where rv: "read_vals (read_double L) vec s1 = (vs, s2)"
      by (cases "read_vals (read_double L) vec s1")
    with "1.prems" w brace obtain t where "next_word s2 = Some (t, s')"
      by (auto simp: parse_ops.simps [of L vec lbl s] split: option.splits if_splits)
    from next_word_ssize [OF this] read_vals_ssize [OF rv] lt show ?thesis by simp
  next
    case label
    with "1.prems" w have e: "length lbl = 0"
      and r: "parse_ops L vec str s1 = Inr (vec', lbl', str', s')"
      by (auto simp: parse_ops.simps [of L vec lbl s] split: if_splits)
    from "1.IH"(2) [OF w refl label(1) label(2) label(3) e r] lt show ?thesis by simp
  qed
qed

subsection \<open>Custom spins: \<^verbatim>\<open>[x y z] = norm\<close>\<close>

text \<open>
  This is the one branch of the parser that does not test its extractions, so the state of
  the stream matters: once an extraction has failed, \<^verbatim>\<open>failbit\<close> stays set and every later
  extraction leaves its variable untouched. An extraction that finds a token which is not a
  number stores zero (the rule since C++11) and sets \<^verbatim>\<open>failbit\<close>.
\<close>

datatype 'a extraction = NotRead | Failed | Got 'a

fun assign :: "'a::zero \<Rightarrow> 'a extraction \<Rightarrow> 'a" where
  "assign old NotRead = old"
| "assign old Failed = 0"
| "assign old (Got v) = v"

definition extract_num ::
  "(string \<Rightarrow> 'a option) \<Rightarrow> tokens \<times> bool \<Rightarrow> 'a extraction \<times> (tokens \<times> bool)" where
  "extract_num rd sf =
     (case sf of (s, f) \<Rightarrow>
        if f then (NotRead, (s, True))
        else (case next_word s of
                None \<Rightarrow> (NotRead, (s, True))
              | Some (t, s') \<Rightarrow>
                  (case rd t of None \<Rightarrow> (Failed, (s, True)) | Some v \<Rightarrow> (Got v, (s', False)))))"

definition extract_word :: "string \<Rightarrow> tokens \<times> bool \<Rightarrow> string \<times> (tokens \<times> bool)" where
  "extract_word old sf =
     (case sf of (s, f) \<Rightarrow>
        if f then (old, (s, True))
        else (case next_word s of
                None \<Rightarrow> (old, (s, True))
              | Some (t, s') \<Rightarrow> (t, (s', False))))"

text \<open>\<^verbatim>\<open>istringstream ss(w); ss >> v;\<close> on a string without white space.\<close>

definition from_string :: "(string \<Rightarrow> 'a option) \<Rightarrow> string \<Rightarrow> 'a extraction" where
  "from_string rd w =
     (if w = [] then NotRead else (case rd w of None \<Rightarrow> Failed | Some v \<Rightarrow> Got v))"

definition parse_spin ::
  "lib \<Rightarrow> string \<Rightarrow> string \<Rightarrow> tokens \<Rightarrow> parse_error + (Spin \<times> string \<times> tokens \<times> bool)" where
  "parse_spin L key str s =
     (let spin = uninit_spin L;
          (ex, sf1) = (if length key > 1 then (from_string (read_unsigned L) (tl key), (s, False))
                       else extract_num (read_unsigned L) (s, False));
          (ey, sf2) = extract_num (read_unsigned L) sf1;
          (str1, sf3) = extract_word str sf2
      in if str1 = [] then Inl Undefined_Behaviour
         else
          (let str2 = (if last str1 = CHR '']'' then butlast str1 else str1);
               ez = from_string (read_unsigned L) str2;
               (str3, sf4) = extract_word str2 sf3
           in if str3 \<noteq> ''='' then Inl (Throw 21)
              else
               (let (en, sf5) = extract_num (read_double L) sf4
                in Inr (\<lparr>spin_x = assign (spin_x spin) ex, spin_y = assign (spin_y spin) ey,
                         spin_z = assign (spin_z spin) ez, spin_norm = assign (spin_norm spin) en\<rparr>,
                        str3, fst sf5, snd sf5))))"

lemma extract_num_ssize: "extract_num rd (s, f) = (e, (s', f')) \<Longrightarrow> ssize s' \<le> ssize s"
  by (auto simp: extract_num_def split: if_splits option.splits dest: next_word_ssize)

lemma extract_word_ssize: "extract_word old (s, f) = (w, (s', f')) \<Longrightarrow> ssize s' \<le> ssize s"
  by (auto simp: extract_word_def split: if_splits option.splits dest: next_word_ssize)

lemma parse_spin_ssize:
  assumes "parse_spin L key str s = Inr (spin, str', s', f')"
  shows "ssize s' \<le> ssize s"
proof -
  obtain ex s1 f1 where e1: "(if length key > 1 then (from_string (read_unsigned L) (tl key), (s, False))
                       else extract_num (read_unsigned L) (s, False)) = (ex, (s1, f1))"
    by (metis surj_pair)
  obtain ey s2 f2 where e2: "extract_num (read_unsigned L) (s1, f1) = (ey, (s2, f2))"
    by (metis surj_pair)
  obtain str1 s3 f3 where e3: "extract_word str (s2, f2) = (str1, (s3, f3))"
    by (metis surj_pair)
  define str2 where "str2 = (if last str1 = CHR '']'' then butlast str1 else str1)"
  obtain str3 s4 f4 where e4: "extract_word str2 (s3, f3) = (str3, (s4, f4))"
    by (metis surj_pair)
  obtain en s5 f5 where e5: "extract_num (read_double L) (s4, f4) = (en, (s5, f5))"
    by (metis surj_pair)
  from assms e1 e2 e3 e4 e5 have "s' = s5"
    by (simp add: parse_spin_def Let_def str2_def split: if_splits)
  moreover have "ssize s1 \<le> ssize s"
    using e1 by (auto split: if_splits dest: extract_num_ssize)
  moreover note extract_num_ssize [OF e2] extract_word_ssize [OF e3] extract_word_ssize [OF e4]
    extract_num_ssize [OF e5]
  ultimately show ?thesis by simp
qed

subsection \<open>The tables and the main loop of the parser\<close>

record tables =
  p :: "rat list smap"
  labelNames :: "string list"
  labelMap :: "string list smap"
  labelMapInv :: "string smap"
  iters :: "nat smap"
  iterLengths :: "nat smap"
  spins :: "Spin list"

definition empty_tables :: tables where
  "empty_tables = \<lparr>p = [], labelNames = [], labelMap = [], labelMapInv = [], iters = [],
     iterLengths = [], spins = []\<rparr>"

text \<open>Lines 377 to 394: the tables are updated with the entry just read.\<close>

definition add_param :: "tables \<Rightarrow> string \<Rightarrow> string \<Rightarrow> rat list \<Rightarrow> parse_error + tables" where
  "add_param tb key lbl0 vec =
     (let lbl = (if length lbl0 = 0 then key else lbl0);
          tb1 = tb\<lparr>p := sm_put key vec (p tb),
                   labelNames := (if sm_find (labelMap tb) lbl = None then labelNames tb @ [lbl]
                                  else labelNames tb),
                   labelMap := sm_put lbl (ss_insert key (sm_get [] (labelMap tb) lbl)) (labelMap tb),
                   labelMapInv := sm_put key lbl (labelMapInv tb),
                   iters := sm_put lbl 0 (iters tb)\<rparr>
      in case sm_find (iterLengths tb) lbl of
           None \<Rightarrow> Inr (tb1\<lparr>iterLengths := sm_put lbl (length vec) (iterLengths tb)\<rparr>)
         | Some n \<Rightarrow>
             if n \<noteq> length vec then Inl (InconsistentSize lbl key vec (length vec) n)
             else Inr tb1)"

text \<open>
  \<^verbatim>\<open>while( fin >> key ) { ... }\<close>. The arguments are the tables, the variable \<^verbatim>\<open>str\<close> (it
  outlives an iteration), the rest of the stream and its \<^verbatim>\<open>failbit\<close>. After a comment,
  \<^verbatim>\<open>str\<close> holds the rest of the line.
\<close>

text \<open>\<^verbatim>\<open>key[0] == c\<close>\<close>

definition first_is :: "char \<Rightarrow> string \<Rightarrow> bool" where
  "first_is c key = (case key of [] \<Rightarrow> False | k # _ \<Rightarrow> k = c)"

definition getline_text :: "string list \<Rightarrow> string" where
  "getline_text l = concat (map (\<lambda>t. CHR '' '' # t) l)"

function parse_loop :: "lib \<Rightarrow> tables \<Rightarrow> string \<Rightarrow> tokens \<Rightarrow> bool \<Rightarrow> parse_error + tables" where
  "parse_loop L tb str s f =
     (if f then Inr tb
      else
       (case next_word s of
          None \<Rightarrow> Inr tb
        | Some (key, s1) \<Rightarrow>
            if first_is CHR ''#'' key then
              (case s1 of
                 [] \<Rightarrow> Inr tb
               | l # ls \<Rightarrow> parse_loop L tb (getline_text l) ls False)
            else if first_is CHR ''['' key then
              (case parse_spin L key str s1 of
                 Inl e \<Rightarrow> Inl e
               | Inr (spin, str', s2, f2) \<Rightarrow>
                   parse_loop L (tb\<lparr>spins := spins tb @ [spin]\<rparr>) str' s2 f2)
            else
              (case parse_ops L [] [] s1 of
                 Inl e \<Rightarrow> Inl e
               | Inr (vec, lbl, str', s2) \<Rightarrow>
                   (case add_param tb key lbl vec of
                      Inl e \<Rightarrow> Inl e
                    | Inr tb' \<Rightarrow> parse_loop L tb' str' s2 False))))"
  by pat_completeness auto
termination
  by (relation "measure (\<lambda>(L, tb, str, s, f). ssize s)")
    (auto dest!: next_word_ssize parse_spin_ssize parse_ops_ssize)

declare parse_loop.simps [simp del]

text \<open>
  The parsing block of \<^verbatim>\<open>main\<close>. \<open>argv1\<close> is the name of the parameter file, which is what
  \<^verbatim>\<open>str\<close> holds when the loop starts.
\<close>

definition parse :: "lib \<Rightarrow> string \<Rightarrow> tokens \<Rightarrow> parse_error + tables" where
  "parse L argv1 s = parse_loop L empty_tables argv1 s False"

subsection \<open>A reader for plain decimal tokens\<close>

text \<open>
  For the tokens that occur in examples: an optional minus sign, digits, and optionally a
  point followed by digits. On these tokens the extraction of the C++ library gives the
  same number (up to rounding to a \<^verbatim>\<open>double\<close>).
\<close>

definition digit :: "char \<Rightarrow> nat option" where
  "digit c = (if CHR ''0'' \<le> c \<and> c \<le> CHR ''9'' then Some (of_char c - 48) else None)"

fun digits :: "nat \<Rightarrow> string \<Rightarrow> nat option" where
  "digits acc [] = Some acc"
| "digits acc (c # cs) = (case digit c of None \<Rightarrow> None | Some d \<Rightarrow> digits (10 * acc + d) cs)"

definition natural :: "string \<Rightarrow> nat option" where
  "natural w = (if w = [] then None else digits 0 w)"

definition decimal :: "string \<Rightarrow> rat option" where
  "decimal w =
     (let neg = (take 1 w = ''-'');
          u = (if neg then drop 1 w else w);
          ip = takeWhile (\<lambda>c. c \<noteq> CHR ''.'') u;
          fp = drop 1 (dropWhile (\<lambda>c. c \<noteq> CHR ''.'') u)
      in case (natural ip, if fp = [] then Some 0 else natural fp) of
           (Some i, Some f) \<Rightarrow>
             Some ((if neg then - 1 else 1) * (of_nat i + of_nat f / 10 ^ length fp))
         | _ \<Rightarrow> None)"

definition std_lib :: lib where
  "std_lib = \<lparr>read_double = decimal, read_unsigned = natural,
     uninit_spin = \<lparr>spin_x = 0, spin_y = 0, spin_z = 0, spin_norm = 0\<rparr>\<rparr>"

section \<open>Configurations and the simulation engine\<close>

text \<open>
  \<^verbatim>\<open>struct Info\<close> is the input of one job and, with its result members filled in, its
  result. The members of \<^verbatim>\<open>parameters\<close>, \<^verbatim>\<open>nodeParameters\<close> and \<^verbatim>\<open>edgeParameters\<close> are
  reached in the program through the map \<^verbatim>\<open>fields\<close> from their names to their addresses;
  here the three structures are one store indexed by those names. The computed
  observables are a store indexed by the names under which \<^verbatim>\<open>recordData\<close> writes them.
\<close>

datatype FlippingAlgorithm = CONTINUOUS_SPIN_MODEL | UP_DOWN_MODEL

datatype ARG4 = REINITIALIZE | RANDOMIZE

datatype MolProtoFactory = LINEAR_MOL | CIRCULAR_MOL

record 'v Atom =
  atom_x :: nat
  atom_y :: nat
  atom_z :: nat
  spin :: 'v
  flux :: 'v
  mag :: 'v

record ('mp, 'v) Info =
  width :: nat
  height :: nat
  depth :: nat
  molPosL :: nat
  molPosR :: nat
  topL :: nat
  bottomL :: nat
  frontR :: nat
  backR :: nat
  info_spins :: "Spin list"
  t_eq :: nat
  simCount :: nat
  freq :: nat
  flippingAlgorithm :: FlippingAlgorithm
  initMode :: ARG4
  parameters :: "rat smap"
  usingMMB :: bool
  molProto :: 'mp
  molType :: MolProtoFactory
  results :: "rat smap"
  atoms :: "'v Atom list"

text \<open>The keys of the map \<^verbatim>\<open>fields\<close>.\<close>

definition field_names :: "string list" where
  "field_names =
    [''kT'', ''B_x'', ''B_y'', ''B_z'', ''SL'', ''SR'', ''Sm'', ''FL'', ''FR'', ''Fm'',
     ''JL'', ''JR'', ''Jm'', ''JmL'', ''JmR'', ''JLR'', ''Je0L'', ''Je0R'', ''Je0m'',
     ''Je1L'', ''Je1R'', ''Je1m'', ''Je1mL'', ''Je1mR'', ''Je1LR'', ''JeeL'', ''JeeR'',
     ''Jeem'', ''JeemL'', ''JeemR'', ''JeeLR'', ''bL'', ''bR'', ''bm'', ''bmL'', ''bmR'',
     ''bLR'', ''AL_x'', ''AL_y'', ''AL_z'', ''AR_x'', ''AR_y'', ''AR_z'', ''Am_x'',
     ''Am_y'', ''Am_z'', ''DL_x'', ''DL_y'', ''DL_z'', ''DR_x'', ''DR_y'', ''DR_z'',
     ''Dm_x'', ''Dm_y'', ''Dm_z'', ''DmL_x'', ''DmL_y'', ''DmL_z'', ''DmR_x'', ''DmR_y'',
     ''DmR_z'', ''DLR_x'', ''DLR_y'', ''DLR_z'']"

text \<open>The names of the observables, in the order in which \<^verbatim>\<open>recordData\<close> writes them.\<close>

definition result_names :: "string list" where
  "result_names =
    [''M_x'', ''M_y'', ''M_z'', ''ML_x'', ''ML_y'', ''ML_z'', ''MR_x'', ''MR_y'', ''MR_z'',
     ''Mm_x'', ''Mm_y'', ''Mm_z'', ''MS_x'', ''MS_y'', ''MS_z'', ''MSL_x'', ''MSL_y'',
     ''MSL_z'', ''MSR_x'', ''MSR_y'', ''MSR_z'', ''MSm_x'', ''MSm_y'', ''MSm_z'', ''MF_x'',
     ''MF_y'', ''MF_z'', ''MFL_x'', ''MFL_y'', ''MFL_z'', ''MFR_x'', ''MFR_y'', ''MFR_z'',
     ''MFm_x'', ''MFm_y'', ''MFm_z'', ''U'', ''UL'', ''UR'', ''Um'', ''UmL'', ''UmR'',
     ''ULR'', ''c'', ''cL'', ''cR'', ''cm'', ''cmL'', ''cmR'', ''cLR'', ''x'', ''xL'',
     ''xR'', ''xm'']"

text \<open>
  The class \<^verbatim>\<open>MSD\<close> (\<^verbatim>\<open>MSD.h\<close>) is not among the sources. Its operations that \<^verbatim>\<open>algorithm\<close>
  calls are the members of the record \<open>engine\<close>, on a type \<open>'m\<close> of engine states. An
  operation that can throw returns a sum: \<open>Inl\<close> carries \<^verbatim>\<open>what()\<close> of the exception
  (\<^verbatim>\<open>out_of_range\<close> for the accessors of a site, \<^verbatim>\<open>MoleculeException\<close> for \<^verbatim>\<open>setMolProto\<close>),
  and the engine is then unchanged.
\<close>

record ('m, 'mp, 'v) engine =
  MSD_new :: "nat list \<Rightarrow> MolProtoFactory \<Rightarrow> 'm"
  setParameters :: "'m \<Rightarrow> rat smap \<Rightarrow> 'm"
  setMolProto :: "'m \<Rightarrow> 'mp \<Rightarrow> string + 'm"
  setMolParameters :: "'m \<Rightarrow> rat smap \<Rightarrow> 'm"
  set_flippingAlgorithm :: "'m \<Rightarrow> FlippingAlgorithm \<Rightarrow> 'm"
  getSpin :: "'m \<Rightarrow> nat \<Rightarrow> nat \<Rightarrow> nat \<Rightarrow> string + 'v"
  setSpin :: "'m \<Rightarrow> nat \<Rightarrow> nat \<Rightarrow> nat \<Rightarrow> 'v \<Rightarrow> string + 'm"
  sphericalForm :: "rat \<Rightarrow> 'v \<Rightarrow> 'v"
  randomize :: "'m \<Rightarrow> 'm"
  metropolis :: "'m \<Rightarrow> nat \<Rightarrow> nat \<Rightarrow> 'm"
  observe :: "'m \<Rightarrow> string \<Rightarrow> rat"
  getWidth :: "'m \<Rightarrow> nat"
  getHeight :: "'m \<Rightarrow> nat"
  getDepth :: "'m \<Rightarrow> nat"
  getFlux :: "'m \<Rightarrow> nat \<Rightarrow> nat \<Rightarrow> nat \<Rightarrow> string + 'v"
  getLocalM :: "'m \<Rightarrow> nat \<Rightarrow> nat \<Rightarrow> nat \<Rightarrow> string + 'v"

text \<open>What a job writes to \<^verbatim>\<open>cerr\<close> when a custom spin cannot be set.\<close>

datatype warning = CouldNotSetSpin nat nat nat rat string

text \<open>
  The body of the loop over \<^verbatim>\<open>info.spins\<close> in \<^verbatim>\<open>algorithm\<close>: \<^verbatim>\<open>getSpin\<close>, then
  \<^verbatim>\<open>Vector::sphericalForm(s.norm, vec.theta(), vec.phi())\<close>, then \<^verbatim>\<open>setSpin\<close>, all inside
  \<^verbatim>\<open>try\<close>; the handler of \<^verbatim>\<open>out_of_range\<close> writes the warning.
\<close>

definition custom_spin ::
  "('m, 'mp, 'v) engine \<Rightarrow> 'm \<times> warning list \<Rightarrow> Spin \<Rightarrow> 'm \<times> warning list" where
  "custom_spin E ml s =
     (case ml of (msd, wlog) \<Rightarrow>
       (case getSpin E msd (spin_x s) (spin_y s) (spin_z s) of
          Inl what \<Rightarrow> (msd, wlog @ [CouldNotSetSpin (spin_x s) (spin_y s) (spin_z s) (spin_norm s) what])
        | Inr vec \<Rightarrow>
           (case setSpin E msd (spin_x s) (spin_y s) (spin_z s) (sphericalForm E (spin_norm s) vec) of
              Inl what \<Rightarrow>
                (msd, wlog @ [CouldNotSetSpin (spin_x s) (spin_y s) (spin_z s) (spin_norm s) what])
            | Inr msd' \<Rightarrow> (msd', wlog))))"

definition custom_spins ::
  "('m, 'mp, 'v) engine \<Rightarrow> 'm \<Rightarrow> Spin list \<Rightarrow> 'm \<times> warning list" where
  "custom_spins E msd ss = foldl (custom_spin E) (msd, []) ss"

text \<open>The three nested loops at the end of \<^verbatim>\<open>algorithm\<close>; a site that throws is skipped.\<close>

definition site :: "('m, 'mp, 'v) engine \<Rightarrow> 'm \<Rightarrow> nat \<Rightarrow> nat \<Rightarrow> nat \<Rightarrow> 'v Atom list" where
  "site E msd x y z =
     (case getSpin E msd x y z of
        Inl what \<Rightarrow> []
      | Inr s \<Rightarrow>
         (case getFlux E msd x y z of
            Inl what \<Rightarrow> []
          | Inr f \<Rightarrow>
             (case getLocalM E msd x y z of
                Inl what \<Rightarrow> []
              | Inr m \<Rightarrow> [\<lparr>atom_x = x, atom_y = y, atom_z = z, spin = s, flux = f, mag = m\<rparr>])))"

definition snapshot :: "('m, 'mp, 'v) engine \<Rightarrow> 'm \<Rightarrow> 'v Atom list" where
  "snapshot E msd =
     concat (map (\<lambda>x. concat (map (\<lambda>y. concat (map (\<lambda>z. site E msd x y z)
       [0..<getDepth E msd])) [0..<getHeight E msd])) [0..<getWidth E msd])"

text \<open>
  \<^verbatim>\<open>Info algorithm(Info info)\<close>. The result is \<open>Inl (- 10)\<close> when the job ends the whole
  process with \<^verbatim>\<open>exit(-10)\<close>, and otherwise the filled-in \<^verbatim>\<open>Info\<close> together with the
  warnings written on the way.
\<close>

definition algorithm ::
  "('m, 'mp, 'v) engine \<Rightarrow> ('mp, 'v) Info \<Rightarrow> int + (('mp, 'v) Info \<times> warning list)" where
  "algorithm E info =
     (let msd = MSD_new E [width info, height info, depth info, molPosL info, molPosR info,
                  topL info, bottomL info, frontR info, backR info] (molType info);
          msd = setParameters E msd (parameters info)
      in case (if usingMMB info then setMolProto E msd (molProto info)
               else Inr (setMolParameters E msd (parameters info))) of
           Inl what \<Rightarrow> Inl (- 10)
         | Inr msd \<Rightarrow>
            (let msd = set_flippingAlgorithm E msd (flippingAlgorithm info);
                 (msd, wlog) = custom_spins E msd (info_spins info);
                 msd = (if initMode info = RANDOMIZE then randomize E msd else msd);
                 msd = metropolis E msd (t_eq info) 0;
                 msd = metropolis E msd (simCount info) (freq info)
             in Inr (info\<lparr>results := map (\<lambda>n. (n, observe E msd n)) result_names,
                          atoms := snapshot E msd\<rparr>, wlog)))"

section \<open>The enumerator \<^verbatim>\<open>nextIter\<close>\<close>

text \<open>
  What \<^verbatim>\<open>main\<close> has established before it reads the parameter file: the names on the
  command line, the number of threads (at least 1), the two modes and the molecule. The
  macro \<^verbatim>\<open>UDC_MSD_VERSION\<close> comes from a header that is not among the sources.
\<close>

record 'mp args =
  prgm :: string
  params_file :: string
  filename :: string
  argv3 :: string
  argv4 :: string
  argv5 :: string
  threadCount :: nat
  arg_flippingAlgorithm :: FlippingAlgorithm
  arg_initMode :: ARG4
  arg_molType :: MolProtoFactory
  arg_usingMMB :: bool
  arg_molProto :: 'mp
  UDC_MSD_VERSION :: string

text \<open>
  Inside the block that runs the simulations, \<^verbatim>\<open>out_of_range\<close> is caught at the end of
  \<^verbatim>\<open>main\<close>, which then returns \<^verbatim>\<open>0x18\<close>. \<open>Exit\<close> is a job that ends the process. Reading
  the first element of an empty vector has no defined behaviour.
\<close>

datatype run_error = Out_of_range | Exit int | Undefined

text \<open>\<^verbatim>\<open>p.at(name)[0]\<close>\<close>

definition at0 :: "tables \<Rightarrow> string \<Rightarrow> run_error + rat" where
  "at0 tb name =
     (case sm_find (p tb) name of
        None \<Rightarrow> Inl Out_of_range
      | Some vec \<Rightarrow> (case vec of [] \<Rightarrow> Inl Undefined | v # _ \<Rightarrow> Inr v))"

fun all_at0 :: "tables \<Rightarrow> string list \<Rightarrow> run_error + rat list" where
  "all_at0 tb [] = Inr []"
| "all_at0 tb (n # ns) =
     (case at0 tb n of
        Inl e \<Rightarrow> Inl e
      | Inr v \<Rightarrow> (case all_at0 tb ns of Inl e \<Rightarrow> Inl e | Inr vs \<Rightarrow> Inr (v # vs)))"

text \<open>
  The twelve keys that are read with \<^verbatim>\<open>p.at(...)[0]\<close>, in the order in which both the
  preamble of the report and \<^verbatim>\<open>nextIter\<close> read them.
\<close>

definition const_names :: "string list" where
  "const_names = [''width'', ''height'', ''depth'', ''molPosL'', ''molPosR'', ''topL'', ''bottomL'',
     ''frontR'', ''backR'', ''t_eq'', ''simCount'', ''freq'']"

text \<open>
  The conversion of a \<^verbatim>\<open>double\<close> to an unsigned integer drops the fraction. (The program
  has no defined behaviour for values outside the range of the integer type.)
\<close>

definition to_unsigned :: "rat \<Rightarrow> nat" where
  "to_unsigned v = nat \<lfloor>v\<rfloor>"

definition sum_bind :: "'e + 'a \<Rightarrow> ('a \<Rightarrow> 'e + 'b) \<Rightarrow> 'e + 'b" where
  "sum_bind m f = (case m of Inl e \<Rightarrow> Inl e | Inr a \<Rightarrow> f a)"

definition set_constants ::
  "'mp args \<Rightarrow> tables \<Rightarrow> ('mp, 'v) Info \<Rightarrow> run_error + ('mp, 'v) Info" where
  "set_constants A tb preInfo =
     sum_bind (at0 tb ''width'') (\<lambda>w.
     sum_bind (at0 tb ''height'') (\<lambda>h.
     sum_bind (at0 tb ''depth'') (\<lambda>d.
     sum_bind (at0 tb ''molPosL'') (\<lambda>ml.
     sum_bind (at0 tb ''molPosR'') (\<lambda>mr.
     sum_bind (at0 tb ''topL'') (\<lambda>tl.
     sum_bind (at0 tb ''bottomL'') (\<lambda>bl.
     sum_bind (at0 tb ''frontR'') (\<lambda>fr.
     sum_bind (at0 tb ''backR'') (\<lambda>br.
     sum_bind (at0 tb ''t_eq'') (\<lambda>te.
     sum_bind (at0 tb ''simCount'') (\<lambda>sc.
     sum_bind (at0 tb ''freq'') (\<lambda>fq.
       Inr (preInfo\<lparr>flippingAlgorithm := arg_flippingAlgorithm A,
              initMode := arg_initMode A, molType := arg_molType A,
              usingMMB := arg_usingMMB A, molProto := arg_molProto A,
              width := to_unsigned w, height := to_unsigned h, depth := to_unsigned d,
              molPosL := to_unsigned ml, molPosR := to_unsigned mr,
              topL := to_unsigned tl, bottomL := to_unsigned bl,
              frontR := to_unsigned fr, backR := to_unsigned br,
              t_eq := to_unsigned te, simCount := to_unsigned sc, freq := to_unsigned fq,
              info_spins := spins tb\<rparr>)))))))))))))"

text \<open>
  \<^verbatim>\<open>try { *fields.at(param) = p.at(param).at(idx); } catch(out_of_range &ex) { }\<close>
\<close>

definition set_field :: "tables \<Rightarrow> nat \<Rightarrow> ('mp, 'v) Info \<Rightarrow> string \<Rightarrow> ('mp, 'v) Info" where
  "set_field tb idx preInfo param =
     (if param \<in> set field_names then
        (case sm_find (p tb) param of
           None \<Rightarrow> preInfo
         | Some vec \<Rightarrow>
             if idx < length vec
             then preInfo\<lparr>parameters := sm_put param (vec ! idx) (parameters preInfo)\<rparr>
             else preInfo)
      else preInfo)"

text \<open>
  The loop over \<^verbatim>\<open>iters\<close> (in the order of the map) and, inside it, over the set of
  parameters of the label. \<^verbatim>\<open>labelMap.at\<close> is outside the \<^verbatim>\<open>try\<close>.
\<close>

fun set_parameters ::
  "tables \<Rightarrow> nat smap \<Rightarrow> ('mp, 'v) Info \<Rightarrow> run_error + ('mp, 'v) Info" where
  "set_parameters tb [] preInfo = Inr preInfo"
| "set_parameters tb ((lbl, idx) # its) preInfo =
     (case sm_find (labelMap tb) lbl of
        None \<Rightarrow> Inl Out_of_range
      | Some params \<Rightarrow> set_parameters tb its (foldl (set_field tb idx) preInfo params))"

text \<open>
  \<^verbatim>\<open>while (iLabelNames != labelNames.end() && ++iters[*iLabelNames] >= iterLengths[*iLabelNames])\<close>
  \<^verbatim>\<open>    iters[*iLabelNames++] = 0;\<close>
  \<^verbatim>\<open>hasNextIter = iLabelNames != labelNames.end();\<close>
  The result is the new \<^verbatim>\<open>iters\<close> and the new \<^verbatim>\<open>hasNextIter\<close>. (Where \<^verbatim>\<open>iterLengths[...]\<close>
  meets a missing key it also inserts the key with 0; no later read can tell.)
\<close>

fun advance :: "string list \<Rightarrow> nat smap \<Rightarrow> nat smap \<Rightarrow> nat smap \<times> bool" where
  "advance [] its lens = (its, False)"
| "advance (l # ls) its lens =
     (let v = sm_get 0 its l + 1
      in if v \<ge> sm_get 0 lens l then advance ls (sm_put l 0 (sm_put l v its)) lens
         else (sm_put l v its, True))"

text \<open>
  The lambda \<^verbatim>\<open>nextIter\<close>. Its \<^verbatim>\<open>static Info preInfo\<close> keeps its value from one call to the
  next, so it is an argument, and the returned \<^verbatim>\<open>Info\<close> is also its new value.
\<close>

definition nextIter ::
  "'mp args \<Rightarrow> tables \<Rightarrow> ('mp, 'v) Info \<Rightarrow> run_error + (('mp, 'v) Info \<times> tables \<times> bool)" where
  "nextIter A tb preInfo =
     (case set_constants A tb preInfo of
        Inl e \<Rightarrow> Inl e
      | Inr pre1 \<Rightarrow>
         (case set_parameters tb (iters tb) pre1 of
            Inl e \<Rightarrow> Inl e
          | Inr pre2 \<Rightarrow>
             (case advance (labelNames tb) (iters tb) (iterLengths tb) of
                (its, hasNextIter) \<Rightarrow> Inr (pre2, tb\<lparr>iters := its\<rparr>, hasNextIter))))"

text \<open>
  Calling \<^verbatim>\<open>nextIter\<close> for as long as \<^verbatim>\<open>hasNextIter\<close> holds, which is what the loop
  \<^verbatim>\<open>while (hasNextIter) { Info preInfo = nextIter(); ... }\<close> of \<^verbatim>\<open>main\<close> does, and collecting
  what the calls return. The value \<open>None\<close> stands for a loop that does not end.
\<close>

partial_function (option) enumerate ::
  "'mp args \<Rightarrow> ('mp, 'v) Info list \<Rightarrow> tables \<Rightarrow> ('mp, 'v) Info \<Rightarrow> bool
     \<Rightarrow> (run_error + ('mp, 'v) Info list) option" where
  "enumerate A acc tb preInfo hasNextIter =
     (if hasNextIter then
        (case nextIter A tb preInfo of
           Inl e \<Rightarrow> Some (Inl e)
         | Inr (info, tb', hasNextIter') \<Rightarrow> enumerate A (acc @ [info]) tb' info hasNextIter')
      else Some (Inr acc))"

declare enumerate.simps [code]

section \<open>The report\<close>

text \<open>
  The report is a \<^verbatim>\<open>rapidxml\<close> document. A node is its name, its attributes, its value and
  its children. How numbers are printed (\<^verbatim>\<open>operator<<\<close>, \<^verbatim>\<open>to_string\<close>), how the components
  of a \<^verbatim>\<open>Vector\<close> are read and how the prototype of the molecule is written out belongs to
  code that is not among the sources; the record \<open>printer\<close> holds these functions.
\<close>

datatype xml = Element string "(string \<times> string) list" string "xml list"

record ('mp, 'v) printer =
  show_double :: "rat \<Rightarrow> string"
  show_time :: "nat \<Rightarrow> string"
  to_string_unsigned :: "nat \<Rightarrow> string"
  to_string_double :: "rat \<Rightarrow> string"
  xyz :: "'v \<Rightarrow> rat \<times> rat \<times> rat"
  molProto_node :: "'mp \<Rightarrow> xml"

text \<open>
  What the program does with the output file is kept as the list of operations on
  \<^verbatim>\<open>fout\<close>, oldest first. \<open>Write_doc\<close> is \<^verbatim>\<open>fout << doc << flush\<close> with the document at that
  moment. Whether an operation succeeds is not modelled: the program only prints a message
  when one fails.
\<close>

datatype file_op = Close | Open_trunc string | Write_text string | Write_doc "xml list"

record journal =
  root :: "xml list"
  fout :: "file_op list"
  completion :: nat

text \<open>
  \<open>root\<close> is the list of children of the node \<^verbatim>\<open><msd>\<close>; \<open>completion\<close> counts the records
  written so far (the program keeps the percentage, which is that number times \<^verbatim>\<open>step\<close>).
\<close>

definition document :: "xml list \<Rightarrow> xml list" where
  "document r =
     [Element ''xml'' [(''version'', ''1.0''), (''encoding'', ''UTF-8'')] [] [],
      Element ''!DOCTYPE'' [] (''msd SYSTEM '' @ [CHR 0x22] @ ''msd.dtd'' @ [CHR 0x22]) [],
      Element ''msd'' [] [] r]"

text \<open>\<^verbatim>\<open>fout.close(); fout.open( filename, ios::out | ios::trunc ); fout << doc << flush;\<close>\<close>

definition write_doc :: "string \<Rightarrow> journal \<Rightarrow> journal" where
  "write_doc fname j = j\<lparr>fout := fout j @ [Close, Open_trunc fname, Write_doc (document (root j))]\<rparr>"

text \<open>\<^verbatim>\<open>recordVar\<close> appends one \<^verbatim>\<open><var>\<close> to the children of the node it is given.\<close>

definition recordVar ::
  "('mp, 'v) printer \<Rightarrow> xml list \<Rightarrow> string \<Rightarrow> string \<Rightarrow> rat \<Rightarrow> xml list" where
  "recordVar P data type name value =
     data @ [Element ''var'' [(''type'', type), (''name'', name), (''value'', show_double P value)] [] []]"

definition loc_node :: "('mp, 'v) printer \<Rightarrow> 'v Atom \<Rightarrow> xml" where
  "loc_node P a =
     (case (xyz P (spin a), xyz P (flux a), xyz P (mag a)) of
        ((sx, sy, sz), (fx, fy, fz), (mx, my, mz)) \<Rightarrow>
          Element ''loc''
            [(''x'', to_string_unsigned P (atom_x a)), (''y'', to_string_unsigned P (atom_y a)),
             (''z'', to_string_unsigned P (atom_z a)),
             (''sx'', to_string_double P sx), (''sy'', to_string_double P sy),
             (''sz'', to_string_double P sz),
             (''fx'', to_string_double P fx), (''fy'', to_string_double P fy),
             (''fz'', to_string_double P fz),
             (''mx'', to_string_double P mx), (''my'', to_string_double P my),
             (''mz'', to_string_double P mz)] [] [])"

text \<open>
  The node \<^verbatim>\<open><data>\<close> that \<^verbatim>\<open>recordData\<close> builds for one result: the time stamp, the 64
  parameters, the 54 observables, the snapshot. (A member of the parameter structures that
  was never assigned reads as 0 here; the sources do not show its initial value.)
\<close>

definition data_node :: "('mp, 'v) printer \<Rightarrow> nat \<Rightarrow> ('mp, 'v) Info \<Rightarrow> xml" where
  "data_node P now info =
     (let data = [Element ''date'' [(''timestamp'', show_time P now)] [] []];
          data = foldl (\<lambda>d n. recordVar P d ''param'' n (sm_get 0 (parameters info) n)) data field_names;
          data = foldl (\<lambda>d n. recordVar P d ''result'' n (sm_get 0 (results info) n)) data result_names;
          data = data @ [Element ''snapshot'' [] [] (map (loc_node P) (atoms info))]
      in Element ''data'' [] [] data)"

text \<open>
  The lambda \<^verbatim>\<open>recordData\<close>: the new node becomes the last child of the root, and the whole
  document is written again. \<open>now\<close> is what \<^verbatim>\<open>time(NULL)\<close> returns in this call.
\<close>

definition recordData ::
  "('mp, 'v) printer \<Rightarrow> string \<Rightarrow> nat \<Rightarrow> journal \<Rightarrow> ('mp, 'v) Info \<Rightarrow> journal" where
  "recordData P fname now j info =
     (let j = j\<lparr>root := root j @ [data_node P now info]\<rparr>;
          j = write_doc fname j
      in j\<lparr>completion := completion j + 1\<rparr>)"

subsection \<open>The preamble\<close>

text \<open>The 64 names of the array \<^verbatim>\<open>inds\<close>, in its order.\<close>

definition inds :: "string list" where
  "inds =
    [''kT'', ''B_x'', ''B_y'', ''B_z'', ''SL'', ''SR'', ''Sm'', ''FL'', ''FR'', ''Fm'',
     ''JL'', ''JmL'', ''Jm'', ''JmR'', ''JR'', ''JLR'', ''Je0L'', ''Je0m'', ''Je0R'',
     ''Je1L'', ''Je1mL'', ''Je1m'', ''Je1mR'', ''Je1R'', ''Je1LR'', ''JeeL'', ''JeemL'',
     ''Jeem'', ''JeemR'', ''JeeR'', ''JeeLR'', ''bL'', ''bmL'', ''bm'', ''bmR'', ''bR'',
     ''bLR'', ''AL_x'', ''AL_y'', ''AL_z'', ''AR_x'', ''AR_y'', ''AR_z'', ''Am_x'',
     ''Am_y'', ''Am_z'', ''DL_x'', ''DL_y'', ''DL_z'', ''DR_x'', ''DR_y'', ''DR_z'',
     ''Dm_x'', ''Dm_y'', ''Dm_z'', ''DmL_x'', ''DmL_y'', ''DmL_z'', ''DmR_x'', ''DmR_y'',
     ''DmR_z'', ''DLR_x'', ''DLR_y'', ''DLR_z'']"

definition ind_node :: "('mp, 'v) printer \<Rightarrow> tables \<Rightarrow> string \<Rightarrow> run_error + xml" where
  "ind_node P tb name =
     (case sm_find (p tb) name of
        None \<Rightarrow> Inl Out_of_range
      | Some vec \<Rightarrow>
          Inr (Element ''ind''
                 ([(''name'', name)] @
                  (case sm_find (labelMapInv tb) name of
                     None \<Rightarrow> []
                   | Some lbl \<Rightarrow> if lbl \<noteq> name then [(''label'', lbl)] else []))
                 []
                 (map (\<lambda>v. Element ''val'' [] (show_double P v) []) vec)))"

fun ind_nodes :: "('mp, 'v) printer \<Rightarrow> tables \<Rightarrow> string list \<Rightarrow> run_error + xml list" where
  "ind_nodes P tb [] = Inr []"
| "ind_nodes P tb (n # ns) =
     (case ind_node P tb n of
        Inl e \<Rightarrow> Inl e
      | Inr x \<Rightarrow> (case ind_nodes P tb ns of Inl e \<Rightarrow> Inl e | Inr xs \<Rightarrow> Inr (x # xs)))"

definition spin_node :: "('mp, 'v) printer \<Rightarrow> Spin \<Rightarrow> xml" where
  "spin_node P s =
     Element ''spin''
       [(''x'', to_string_unsigned P (spin_x s)), (''y'', to_string_unsigned P (spin_y s)),
        (''z'', to_string_unsigned P (spin_z s)), (''norm'', to_string_double P (spin_norm s))] [] []"

definition global_node ::
  "('mp, 'v) printer \<Rightarrow> 'mp args \<Rightarrow> tables \<Rightarrow> run_error + xml" where
  "global_node P A tb =
     sum_bind (all_at0 tb const_names) (\<lambda>cs.
     sum_bind (ind_nodes P tb inds) (\<lambda>is.
       Inr (Element ''global'' [] []
              (foldl (\<lambda>g (n, v). recordVar P g ''param'' n v) [] (zip const_names cs) @ is @
               [Element ''spins'' [] [] (map (spin_node P) (spins tb)),
                molProto_node P (arg_molProto A)]))))"

text \<open>
  The block \<^verbatim>\<open>add global stuff to the XML document\<close> and the first writing of the file.
  \<open>beginning\<close> is the time at which the run starts. The node \<^verbatim>\<open>parg5\<close> is appended to the
  root, not to \<^verbatim>\<open>pargs\<close>: that is what the program does.
\<close>

definition parg :: "string \<Rightarrow> string \<Rightarrow> string \<Rightarrow> xml" where
  "parg i name value = Element ''parg'' [(''index'', i), (''name'', name), (''value'', value)] [] []"

definition skeleton ::
  "('mp, 'v) printer \<Rightarrow> 'mp args \<Rightarrow> nat \<Rightarrow> tables \<Rightarrow> journal \<Rightarrow> run_error + journal" where
  "skeleton P A beginning tb j =
     sum_bind (global_node P A tb) (\<lambda>global.
       Inr (write_doc (filename A)
              (j\<lparr>root :=
                   [Element ''xml_version'' [(''major'', ''1''), (''minor'', ''8'')] [] [],
                    Element ''msd_version'' [] (UDC_MSD_VERSION A) [],
                    Element ''gen'' [] []
                      [Element ''prgm'' [] (prgm A) [],
                       Element ''date'' [(''timestamp'', show_time P beginning)] [] []],
                    parg ''5'' ''molType'' (argv5 A),
                    Element ''pargs'' [] []
                      [parg ''3'' ''flippingAlgorithm'' (argv3 A), parg ''4'' ''initMode'' (argv4 A)],
                    global]\<rparr>)))"

section \<open>The pool of threads\<close>

text \<open>
  \<^verbatim>\<open>threadPool\<close> is an array of \<^verbatim>\<open>threadCount\<close> objects \<^verbatim>\<open>future<Info>\<close>. A future is
  invalid (no shared state: never assigned, or already read with \<^verbatim>\<open>get\<close>) or it belongs to
  a job started with \<^verbatim>\<open>async\<close>. The jobs run in threads of their own; what the main thread
  can see of them is whether \<^verbatim>\<open>wait_for\<close> answers \<^verbatim>\<open>ready\<close>. The model has a clock that
  counts the calls of \<^verbatim>\<open>wait_for\<close> that were answered otherwise, and a running job carries
  its result and the value of the clock from which on it is ready. Every run of the
  program in which each job comes to an end is obtained by a choice of these values; a job
  that never ends is not modelled.
\<close>

datatype 'r future = Invalid | Running 'r nat

fun horizon :: "'r future list \<Rightarrow> nat" where
  "horizon [] = 0"
| "horizon (Invalid # fs) = horizon fs"
| "horizon (Running r t # fs) = max t (horizon fs)"

fun running :: "'r future list \<Rightarrow> nat" where
  "running [] = 0"
| "running (Invalid # fs) = running fs"
| "running (Running r t # fs) = Suc (running fs)"

lemma horizon_nth: "i < length tp \<Longrightarrow> tp ! i = Running r t \<Longrightarrow> t \<le> horizon tp"
proof (induction tp arbitrary: i rule: horizon.induct)
  case 1
  then show ?case by simp
next
  case (2 fs)
  then show ?case by (cases i) auto
next
  case (3 r' t' fs)
  then show ?case by (cases i) (auto simp: max.coboundedI2)
qed

lemma running_collect:
  "i < length tp \<Longrightarrow> tp ! i = Running r t \<Longrightarrow> running (tp[i := Invalid]) < running tp"
proof (induction tp arbitrary: i rule: running.induct)
  case 1
  then show ?case by simp
next
  case (2 fs)
  then show ?case by (cases i) auto
next
  case (3 r' t' fs)
  then show ?case by (cases i) auto
qed

text \<open>
  The loop \<^verbatim>\<open>while(true)\<close> of the main loop, which looks for the slot of the next job. It
  returns the result taken out of the slot (none when the slot was invalid), the new
  \<^verbatim>\<open>nextIndex\<close> and the new clock. \<^verbatim>\<open>nextIndex\<close> is always below \<^verbatim>\<open>threadCount\<close> in the
  program; an index outside the array is not a case of the program.
\<close>

function await_slot :: "'r future list \<Rightarrow> nat \<Rightarrow> nat \<Rightarrow> 'r option \<times> nat \<times> nat" where
  "await_slot tp i c =
     (if i < length tp then
        (case tp ! i of
           Invalid \<Rightarrow> (None, i, c)
         | Running r t \<Rightarrow>
             if t \<le> c then (Some r, i, c)
             else await_slot tp ((i + 1) mod length tp) (c + 1))
      else (None, i, c))"
  by pat_completeness auto
termination
proof (relation "measure (\<lambda>(tp, i, c). Suc (horizon tp) - c)", goal_cases)
  case 1
  show ?case by simp
next
  case (2 tp i c r t)
  then have "t \<le> horizon tp" by (auto dest: horizon_nth)
  with 2 show ?case by simp
qed

text \<open>
  The loop that cleans up the pool after the last configuration:
  \<^verbatim>\<open>while( openThreads < threadCount ) { if( nextIndex == 0 ) openThreads = 0; ... }\<close>.
  \<open>rcd\<close> is what is done with a result (\<^verbatim>\<open>recordData\<close>), \<open>j\<close> the state it works on. The
  function \<open>lap\<close> is only used to show that the loop ends.
\<close>

definition lap :: "nat \<Rightarrow> nat \<Rightarrow> nat \<Rightarrow> nat" where
  "lap n i openThreads =
     (if n \<le> openThreads then 0
      else if (if i = 0 then 0 else openThreads) = i then Suc (n - i)
      else Suc (2 * n - i))"

function drain ::
  "('j \<Rightarrow> 'r \<Rightarrow> 'j) \<Rightarrow> 'r future list \<Rightarrow> nat \<Rightarrow> nat \<Rightarrow> nat \<Rightarrow> 'j
     \<Rightarrow> 'r future list \<times> nat \<times> nat \<times> 'j" where
  "drain rcd tp i openThreads c j =
     (if openThreads < length tp \<and> i < length tp then
        (let openThreads = (if i = 0 then 0 else openThreads)
         in case tp ! i of
              Invalid \<Rightarrow> drain rcd tp ((i + 1) mod length tp) (openThreads + 1) c j
            | Running r t \<Rightarrow>
                if t \<le> c
                then drain rcd (tp[i := Invalid]) ((i + 1) mod length tp) (openThreads + 1) c
                       (rcd j r)
                else drain rcd tp ((i + 1) mod length tp) openThreads (c + 1) j)
      else (tp, i, c, j))"
  by pat_completeness auto
termination
proof (relation "measures [\<lambda>(rcd, tp, i, openThreads, c, j). running tp,
                           \<lambda>(rcd, tp, i, openThreads, c, j). Suc (horizon tp) - c,
                           \<lambda>(rcd, tp, i, openThreads, c, j). lap (length tp) i openThreads]",
       goal_cases)
  case 1
  show ?case by simp
next
  case (2 rcd tp i openThreads c j x)
  then have "lap (length tp) ((i + 1) mod length tp) (x + 1) < lap (length tp) i openThreads"
    by (auto simp: lap_def mod_Suc split: if_splits)
  then show ?case by simp
next
  case (3 rcd tp i openThreads c j x r t)
  then have "running (tp[i := Invalid]) < running tp"
    by (auto intro: running_collect)
  then show ?case by simp
next
  case (4 rcd tp i openThreads c j x r t)
  then have "t \<le> horizon tp" by (auto dest: horizon_nth)
  with 4 have "Suc (horizon tp) - (c + 1) < Suc (horizon tp) - c" by simp
  then show ?case by simp
qed

declare drain.simps [simp del] await_slot.simps [simp del]

text \<open>
  The results that the jobs in the pool are going to return, in the order of the slots, and
  the result that the main loop has taken from a slot, if any.
\<close>

fun pending :: "'r future list \<Rightarrow> 'r list" where
  "pending [] = []"
| "pending (Invalid # fs) = pending fs"
| "pending (Running r t # fs) = r # pending fs"

fun taken :: "'r option \<Rightarrow> 'r list" where
  "taken None = []"
| "taken (Some r) = [r]"

text \<open>
  What holds of \<^verbatim>\<open>openThreads\<close> each time the condition of the final loop is tested: it
  counts slots below \<^verbatim>\<open>nextIndex\<close> (below \<^verbatim>\<open>threadCount\<close> once the index has wrapped to 0), and
  when it has counted all of them, all of them are invalid.
\<close>

definition lap_inv :: "'r future list \<Rightarrow> nat \<Rightarrow> nat \<Rightarrow> bool" where
  "lap_inv tp i openThreads \<longleftrightarrow>
     (if i = 0
      then openThreads \<le> length tp \<and>
           (openThreads = length tp \<longrightarrow> (\<forall>k<length tp. tp ! k = Invalid))
      else openThreads \<le> i \<and> (openThreads = i \<longrightarrow> (\<forall>k<i. tp ! k = Invalid)))"

section \<open>The main loop\<close>

text \<open>
  \<open>time_at k\<close> is what \<^verbatim>\<open>time(NULL)\<close> returns when the record number \<open>k\<close> is written,
  \<open>beginning\<close> what it returns at the start, and \<open>dur k\<close> the number of clock ticks after
  which the job number \<open>k\<close> (in the order of the calls of \<^verbatim>\<open>async\<close>) is ready.
\<close>

record world =
  time_at :: "nat \<Rightarrow> nat"
  beginning :: nat
  dur :: "nat \<Rightarrow> nat"

record ('m, 'mp, 'v) env =
  lib_of :: lib
  engine_of :: "('m, 'mp, 'v) engine"
  printer_of :: "('mp, 'v) printer"
  world_of :: world
  args_of :: "'mp args"
  preInfo0 :: "('mp, 'v) Info"

text \<open>
  \<open>preInfo0\<close> is the value of the static \<^verbatim>\<open>preInfo\<close> before the first call of \<^verbatim>\<open>nextIter\<close>.

  The variables of \<^verbatim>\<open>main\<close> that change while the simulations run. \<open>launched\<close> counts the
  calls of \<^verbatim>\<open>async\<close>.
\<close>

record ('mp, 'v) state =
  s_tables :: tables
  s_preInfo :: "('mp, 'v) Info"
  s_hasNextIter :: bool
  threadPool :: "(('mp, 'v) Info \<times> warning list) future list"
  nextIndex :: nat
  clock :: nat
  launched :: nat
  s_journal :: journal

definition record_result ::
  "('m, 'mp, 'v) env \<Rightarrow> journal \<Rightarrow> ('mp, 'v) Info \<times> warning list \<Rightarrow> journal" where
  "record_result V j postInfo =
     recordData (printer_of V) (filename (args_of V)) (time_at (world_of V) (completion j)) j
       (fst postInfo)"

text \<open>
  Lines 956 to 971: wait for a slot, then \<^verbatim>\<open>threadPool[nextIndex] = async(...)\<close>. \<open>r\<close> is
  what the new job is going to return.
\<close>

definition submit ::
  "world \<Rightarrow> ('mp, 'v) state \<Rightarrow> ('mp, 'v) Info \<times> warning list
     \<Rightarrow> (('mp, 'v) Info \<times> warning list) option \<times> ('mp, 'v) state" where
  "submit W st r =
     (case await_slot (threadPool st) (nextIndex st) (clock st) of
        (postInfo, i, c) \<Rightarrow>
          (postInfo,
           st\<lparr>threadPool := (threadPool st)[i := Running r (c + dur W (launched st))],
              nextIndex := i, clock := c, launched := launched st + 1\<rparr>))"

text \<open>
  One pass through the body of \<^verbatim>\<open>while (hasNextIter)\<close>. With one thread the job runs in
  the main thread, and \<^verbatim>\<open>exit(-10)\<close> in it ends the run there. With more threads a job that
  calls \<^verbatim>\<open>exit(-10)\<close> ends the process at some moment while it runs; the model ends the run
  when that job is started and so says nothing about what the program still writes before
  that moment.
\<close>

definition loop_body ::
  "('m, 'mp, 'v) env \<Rightarrow> ('mp, 'v) state \<Rightarrow> run_error + ('mp, 'v) state" where
  "loop_body V st =
     (case nextIter (args_of V) (s_tables st) (s_preInfo st) of
        Inl e \<Rightarrow> Inl e
      | Inr (preInfo, tb, hasNextIter) \<Rightarrow>
         (let st = st\<lparr>s_tables := tb, s_preInfo := preInfo, s_hasNextIter := hasNextIter\<rparr>
          in if threadCount (args_of V) > 1 then
               (case algorithm (engine_of V) preInfo of
                  Inl code \<Rightarrow> Inl (Exit code)
                | Inr r \<Rightarrow>
                   (case submit (world_of V) st r of
                      (None, st) \<Rightarrow> Inr st
                    | (Some postInfo, st) \<Rightarrow>
                        Inr (st\<lparr>s_journal := record_result V (s_journal st) postInfo\<rparr>)))
             else
               (case algorithm (engine_of V) preInfo of
                  Inl code \<Rightarrow> Inl (Exit code)
                | Inr postInfo \<Rightarrow>
                    Inr (st\<lparr>s_journal := record_result V (s_journal st) postInfo\<rparr>))))"

partial_function (option) main_loop ::
  "('m, 'mp, 'v) env \<Rightarrow> ('mp, 'v) state \<Rightarrow> (run_error \<times> ('mp, 'v) state + ('mp, 'v) state) option"
where
  "main_loop V st =
     (if s_hasNextIter st then
        (case loop_body V st of
           Inl e \<Rightarrow> Some (Inl (e, st))
         | Inr st' \<Rightarrow> main_loop V st')
      else Some (Inr st))"

text \<open>Lines 984 to 1001.\<close>

definition drain_pool :: "('m, 'mp, 'v) env \<Rightarrow> ('mp, 'v) state \<Rightarrow> ('mp, 'v) state" where
  "drain_pool V st =
     (if threadCount (args_of V) > 1 then
        (case drain (record_result V) (threadPool st) (nextIndex st) 0 (clock st) (s_journal st) of
           (tp, i, c, j) \<Rightarrow> st\<lparr>threadPool := tp, nextIndex := i, clock := c, s_journal := j\<rparr>)
      else st)"

text \<open>
  \<^verbatim>\<open>main\<close> from the point where the output file has been opened and the line of trash has
  been written to it. The result is the value that \<^verbatim>\<open>main\<close> returns (none where the
  behaviour is not defined) and the final state of the report; there is no result when
  \<^verbatim>\<open>main\<close> does not return.
\<close>

definition journal0 :: "'mp args \<Rightarrow> journal" where
  "journal0 A =
     \<lparr>root = [],
      fout = [Open_trunc (filename A), Write_text (''Nope, there's only trash here.'' @ [CHR 0x0A])],
      completion = 0\<rparr>"

definition state0 :: "('m, 'mp, 'v) env \<Rightarrow> tables \<Rightarrow> journal \<Rightarrow> ('mp, 'v) state" where
  "state0 V tb j =
     \<lparr>s_tables = tb, s_preInfo = preInfo0 V, s_hasNextIter = True,
      threadPool = (if threadCount (args_of V) > 1 then replicate (threadCount (args_of V)) Invalid
                    else []),
      nextIndex = 0, clock = 0, launched = 0, s_journal = j\<rparr>"

fun parse_exit :: "parse_error \<Rightarrow> int option" where
  "parse_exit Undefined_Behaviour = None"
| "parse_exit Never_ends = None"
| "parse_exit e = Some (or (int (thrown e)) 0x10)"

fun run_exit :: "run_error \<Rightarrow> int option" where
  "run_exit Out_of_range = Some 0x18"
| "run_exit (Exit code) = Some code"
| "run_exit Undefined = None"

definition main :: "('m, 'mp, 'v) env \<Rightarrow> tokens \<Rightarrow> (int option \<times> journal) option" where
  "main V s =
     (case parse (lib_of V) (params_file (args_of V)) s of
        Inl e \<Rightarrow> if e = Never_ends then None else Some (parse_exit e, journal0 (args_of V))
      | Inr tb \<Rightarrow>
         (case skeleton (printer_of V) (args_of V) (beginning (world_of V)) tb
                 (journal0 (args_of V)) of
            Inl e \<Rightarrow> Some (run_exit e, journal0 (args_of V))
          | Inr j \<Rightarrow>
             (case main_loop V (state0 V tb j) of
                None \<Rightarrow> None
              | Some (Inl (e, st)) \<Rightarrow> Some (run_exit e, s_journal st)
              | Some (Inr st) \<Rightarrow> Some (Some 0, s_journal (drain_pool V st)))))"

section \<open>Notions used in the statements\<close>

text \<open>
  The values that \<^verbatim>\<open>val\<close> takes in the loop of the \<^verbatim>\<open>:\<close> operator: \<open>dsum val inc i\<close> is \<^verbatim>\<open>val\<close>
  after \<open>i\<close> additions of \<^verbatim>\<open>inc\<close>, each of them rounded; an infinity stays. \<open>in_range\<close> is the
  test of the loop on such a value, and \<open>is_double x\<close> says that \<open>x\<close> is a finite value of
  the format.
\<close>

fun dsum :: "rat \<Rightarrow> rat \<Rightarrow> nat \<Rightarrow> double" where
  "dsum val inc 0 = Finite val"
| "dsum val inc (Suc i) = (case dsum val inc i of Finite v \<Rightarrow> round_double (v + inc) | d \<Rightarrow> d)"

fun finite_value :: "double \<Rightarrow> rat" where
  "finite_value (Finite v) = v"
| "finite_value d = 0"

fun in_range :: "rat \<Rightarrow> double \<Rightarrow> double \<Rightarrow> bool" where
  "in_range inc lmt (Finite v) = inside inc lmt v"
| "in_range inc lmt d = False"

definition is_double :: "rat \<Rightarrow> bool" where
  "is_double x \<longleftrightarrow> round_double x = Finite x"


text \<open>
  What holds of the tables whenever the parser has accepted a file: the labels are listed
  once each, the maps from labels have exactly these labels as keys, every cursor is 0,
  every length is at least 1 and no list of values is empty.
\<close>

definition tables_ok :: "tables \<Rightarrow> bool" where
  "tables_ok tb \<longleftrightarrow>
     distinct (labelNames tb) \<and>
     fst ` set (labelMap tb) = set (labelNames tb) \<and>
     fst ` set (iters tb) = set (labelNames tb) \<and>
     fst ` set (iterLengths tb) = set (labelNames tb) \<and>
     (\<forall>(l, n) \<in> set (iters tb). n = 0) \<and>
     (\<forall>(l, n) \<in> set (iterLengths tb). 1 \<le> n) \<and>
     (\<forall>(k, vec) \<in> set (p tb). 1 \<le> length vec)"

text \<open>
  The parameter entries that the parser reads from a file, as triples of key, label and
  list, in the order of the file and up to the end of the file or the first entry that
  cannot be read. It is the loop of the parser without the tables.
\<close>

function entries_read :: "lib \<Rightarrow> string \<Rightarrow> tokens \<Rightarrow> bool \<Rightarrow> (string \<times> string \<times> rat list) list" where
  "entries_read L str s f =
     (if f then []
      else
       (case next_word s of
          None \<Rightarrow> []
        | Some (key, s1) \<Rightarrow>
            if first_is CHR ''#'' key then
              (case s1 of
                 [] \<Rightarrow> []
               | l # ls \<Rightarrow> entries_read L (getline_text l) ls False)
            else if first_is CHR ''['' key then
              (case parse_spin L key str s1 of
                 Inl e \<Rightarrow> []
               | Inr (sp, str', s2, f2) \<Rightarrow> entries_read L str' s2 f2)
            else
              (case parse_ops L [] [] s1 of
                 Inl e \<Rightarrow> []
               | Inr (vec, lbl, str', s2) \<Rightarrow>
                   (key, if length lbl = 0 then key else lbl, vec) # entries_read L str' s2 False)))"
  by pat_completeness auto
termination
  by (relation "measure (\<lambda>(L, str, s, f). ssize s)")
    (auto dest!: next_word_ssize parse_spin_ssize parse_ops_ssize)

declare entries_read.simps [simp del]

text \<open>Two entries with the same label and lists of different lengths.\<close>

fun conflict :: "(string \<times> string \<times> rat list) list \<Rightarrow> bool" where
  "conflict [] = False"
| "conflict ((key, lbl, vec) # es) =
     (list_ex (\<lambda>(key', lbl', vec'). lbl' = lbl \<and> length vec' \<noteq> length vec) es \<or> conflict es)"

text \<open>The first entry whose length differs from the one recorded for its label.\<close>

fun check_lengths ::
  "nat smap \<Rightarrow> (string \<times> string \<times> rat list) list \<Rightarrow> (string \<times> string \<times> rat list \<times> nat) option" where
  "check_lengths lens [] = None"
| "check_lengths lens ((key, lbl, vec) # es) =
     (case sm_find lens lbl of
        None \<Rightarrow> check_lengths (sm_put lbl (length vec) lens) es
      | Some n \<Rightarrow> if n \<noteq> length vec then Some (lbl, key, vec, n) else check_lengths lens es)"

text \<open>The engine as it is when the loop over the custom spins starts.\<close>

definition engine_before_spins :: "('m, 'mp, 'v) engine \<Rightarrow> ('mp, 'v) Info \<Rightarrow> int + 'm" where
  "engine_before_spins E info =
     (let msd = MSD_new E [width info, height info, depth info, molPosL info, molPosR info,
                  topL info, bottomL info, frontR info, backR info] (molType info);
          msd = setParameters E msd (parameters info)
      in case (if usingMMB info then setMolProto E msd (molProto info)
               else Inr (setMolParameters E msd (parameters info))) of
           Inl what \<Rightarrow> Inl (- 10)
         | Inr msd \<Rightarrow> Inr (set_flippingAlgorithm E msd (flippingAlgorithm info)))"

text \<open>
  The number \<open>j\<close> written with the radices \<open>ns\<close>, least significant digit first: the state
  of an odometer with these wheels after \<open>j\<close> steps from zero.
\<close>

fun odometer :: "nat list \<Rightarrow> nat \<Rightarrow> nat list" where
  "odometer [] j = []"
| "odometer (n # ns) j = (j mod n) # odometer ns (j div n)"

text \<open>One step of such an odometer, and whether it did not run over.\<close>

fun odometer_step :: "nat list \<Rightarrow> nat list \<Rightarrow> nat list \<times> bool" where
  "odometer_step (c # cs) (n # ns) =
     (if c + 1 \<ge> n then (case odometer_step cs ns of (cs', again) \<Rightarrow> (0 # cs', again))
      else ((c + 1) # cs, True))"
| "odometer_step cs ns = (cs, False)"


text \<open>
  The cursors and the lengths of the labels in the order of \<^verbatim>\<open>labelNames\<close>, and the condition
  that the twelve keys read with \<^verbatim>\<open>p.at(...)[0]\<close> are in the table with a value.
\<close>

definition cursors :: "tables \<Rightarrow> nat list" where
  "cursors tb = map (sm_get 0 (iters tb)) (labelNames tb)"

definition lengths :: "tables \<Rightarrow> nat list" where
  "lengths tb = map (sm_get 0 (iterLengths tb)) (labelNames tb)"

definition has_constants :: "tables \<Rightarrow> bool" where
  "has_constants tb =
     list_all (\<lambda>n. case sm_find (p tb) n of Some (v # vs) \<Rightarrow> True | _ \<Rightarrow> False) const_names"

text \<open>Tables that differ from \<open>tb\<close> in the cursors only.\<close>

definition enum_inv :: "tables \<Rightarrow> tables \<Rightarrow> bool" where
  "enum_inv tb tbj \<longleftrightarrow> (\<exists>its. tbj = tb\<lparr>iters := its\<rparr> \<and> fst ` set its = set (labelNames tb))"

text \<open>
  With more than one thread the pool has \<^verbatim>\<open>threadCount\<close> slots and \<^verbatim>\<open>nextIndex\<close> is the index
  of one of them.
\<close>

definition pool_ok :: "('m, 'mp, 'v) env \<Rightarrow> ('mp, 'v) state \<Rightarrow> bool" where
  "pool_ok V st \<longleftrightarrow>
     (1 < threadCount (args_of V) \<longrightarrow>
        length (threadPool st) = threadCount (args_of V) \<and> nextIndex st < threadCount (args_of V))"

text \<open>
  The states in which the condition of \<^verbatim>\<open>while (hasNextIter)\<close> is tested in a run that
  started in \<open>st0\<close>.
\<close>

inductive reachable :: "('m, 'mp, 'v) env \<Rightarrow> ('mp, 'v) state \<Rightarrow> ('mp, 'v) state \<Rightarrow> bool"
  for V :: "('m, 'mp, 'v) env" and st0 :: "('mp, 'v) state" where
  start: "reachable V st0 st0"
| step: "reachable V st0 st \<Longrightarrow> s_hasNextIter st \<Longrightarrow> loop_body V st = Inr st' \<Longrightarrow>
         reachable V st0 st'"

text \<open>
  The configurations that the calls of \<^verbatim>\<open>nextIter\<close> return, one after the other, until
  \<^verbatim>\<open>hasNextIter\<close> is false.
\<close>

inductive enum_run ::
  "'mp args \<Rightarrow> tables \<Rightarrow> ('mp, 'v) Info \<Rightarrow> bool \<Rightarrow> ('mp, 'v) Info list \<Rightarrow> bool"
  for A :: "'mp args" where
  stop: "enum_run A tb preInfo False []"
| again: "nextIter A tb preInfo = Inr (info, tb', hn) \<Longrightarrow> enum_run A tb' info hn infos \<Longrightarrow>
          enum_run A tb preInfo True (info # infos)"

section \<open>A small engine for examples\<close>

text \<open>
  Examples need an engine that can be run. This one has a site at every \<open>(x, y, z)\<close> inside
  the box given by the first three dimensions; a spin is a number, 1 unless it was set;
  the simulation itself does nothing, and every observable is the sum of the spins that
  were set. It stands for no physics.
\<close>

record toy_msd =
  box :: "nat \<times> nat \<times> nat"
  set_spins :: "((nat \<times> nat \<times> nat) \<times> rat) list"

definition toy_site :: "toy_msd \<Rightarrow> nat \<Rightarrow> nat \<Rightarrow> nat \<Rightarrow> bool" where
  "toy_site m x y z = (case box m of (w, h, d) \<Rightarrow> x < w \<and> y < h \<and> z < d)"

definition toy_get :: "toy_msd \<Rightarrow> nat \<Rightarrow> nat \<Rightarrow> nat \<Rightarrow> string + rat" where
  "toy_get m x y z =
     (if toy_site m x y z
      then Inr (case map_of (set_spins m) (x, y, z) of None \<Rightarrow> 1 | Some v \<Rightarrow> v)
      else Inl ''no atom at this location'')"

definition toy_engine :: "(toy_msd, unit, rat) engine" where
  "toy_engine =
     \<lparr>MSD_new = (\<lambda>ds mt. \<lparr>box = (ds ! 0, ds ! 1, ds ! 2), set_spins = []\<rparr>),
      setParameters = (\<lambda>m ps. m),
      setMolProto = (\<lambda>m mp. Inr m),
      setMolParameters = (\<lambda>m ps. m),
      set_flippingAlgorithm = (\<lambda>m fa. m),
      getSpin = toy_get,
      setSpin = (\<lambda>m x y z v.
        if toy_site m x y z then Inr (m\<lparr>set_spins := ((x, y, z), v) # set_spins m\<rparr>)
        else Inl ''no atom at this location''),
      sphericalForm = (\<lambda>norm v. norm),
      randomize = (\<lambda>m. m),
      metropolis = (\<lambda>m n f. m),
      observe = (\<lambda>m name. sum_list (map snd (set_spins m))),
      getWidth = (\<lambda>m. fst (box m)),
      getHeight = (\<lambda>m. fst (snd (box m))),
      getDepth = (\<lambda>m. snd (snd (box m))),
      getFlux = toy_get,
      getLocalM = toy_get\<rparr>"

definition toy_printer :: "(unit, rat) printer" where
  "toy_printer =
     \<lparr>show_double = (\<lambda>v. if v = 0 then ''0'' else ''x''),
      show_time = (\<lambda>t. replicate t CHR ''|''),
      to_string_unsigned = (\<lambda>n. replicate n CHR ''|''),
      to_string_double = (\<lambda>v. if v = 0 then ''0'' else ''x''),
      xyz = (\<lambda>v. (v, 0, 0)),
      molProto_node = (\<lambda>mp. Element ''molProto'' [] [] [])\<rparr>"

definition toy_info :: "(unit, rat) Info" where
  "toy_info =
     \<lparr>width = 0, height = 0, depth = 0, molPosL = 0, molPosR = 0, topL = 0, bottomL = 0,
      frontR = 0, backR = 0, info_spins = [], t_eq = 0, simCount = 0, freq = 0,
      flippingAlgorithm = CONTINUOUS_SPIN_MODEL, initMode = REINITIALIZE, parameters = [],
      usingMMB = False, molProto = (), molType = LINEAR_MOL, results = [], atoms = []\<rparr>"

definition toy_env :: "nat \<Rightarrow> (toy_msd, unit, rat) env" where
  "toy_env n =
     \<lparr>lib_of = std_lib, engine_of = toy_engine, printer_of = toy_printer,
      world_of = \<lparr>time_at = (\<lambda>k. k), beginning = 0, dur = (\<lambda>k. 2 - k mod 2)\<rparr>,
      args_of = \<lparr>prgm = ''metropolis'', params_file = ''in.txt'', filename = ''out.xml'',
        argv3 = ''CONTINUOUS_SPIN_MODEL'', argv4 = ''REINITIALIZE'', argv5 = ''LINEAR'',
        threadCount = n, arg_flippingAlgorithm = CONTINUOUS_SPIN_MODEL,
        arg_initMode = REINITIALIZE, arg_molType = LINEAR_MOL, arg_usingMMB = False,
        arg_molProto = (), UDC_MSD_VERSION = ''5.4.0''\<rparr>,
      preInfo0 = toy_info\<rparr>"

text \<open>
  A parameter file for examples, with the twelve keys that every run needs and three swept
  parameters, two of them under one label; and the tables that the parser builds from it.
\<close>

definition toy_file :: tokens where
  "toy_file =
     [[''width'', ''='', ''1''], [''height'', ''='', ''1''], [''depth'', ''='', ''1''],
      [''molPosL'', ''='', ''0''], [''molPosR'', ''='', ''0''],
      [''topL'', ''='', ''0''], [''bottomL'', ''='', ''0''], [''frontR'', ''='', ''0''],
      [''backR'', ''='', ''0''],
      [''t_eq'', ''='', ''10''], [''simCount'', ''='', ''100''], [''freq'', ''='', ''1''],
      [''kT'', '':'', ''1'', ''3'', ''1''],
      [''JL'', ''L'', ''{'', ''1'', ''2'', ''}''], [''JR'', ''L'', ''{'', ''3'', ''4'', ''}'']]"

definition toy_tables :: tables where
  "toy_tables =
     \<lparr>p = [(''JL'', [1, 2]), (''JR'', [3, 4]), (''backR'', [0]),
           (''bottomL'', [0]), (''depth'', [1]), (''freq'', [1]),
           (''frontR'', [0]), (''height'', [1]), (''kT'', [1, 2, 3]),
           (''molPosL'', [0]), (''molPosR'', [0]), (''simCount'', [100]),
           (''t_eq'', [10]), (''topL'', [0]), (''width'', [1])],
        labelNames =
          [''width'', ''height'', ''depth'', ''molPosL'', ''molPosR'',
           ''topL'', ''bottomL'', ''frontR'', ''backR'', ''t_eq'',
           ''simCount'', ''freq'', ''kT'', ''L''],
        labelMap =
          [(''L'', [''JL'', ''JR'']), (''backR'', [''backR'']),
           (''bottomL'', [''bottomL'']), (''depth'', [''depth'']),
           (''freq'', [''freq'']), (''frontR'', [''frontR'']),
           (''height'', [''height'']), (''kT'', [''kT'']),
           (''molPosL'', [''molPosL'']), (''molPosR'', [''molPosR'']),
           (''simCount'', [''simCount'']), (''t_eq'', [''t_eq'']),
           (''topL'', [''topL'']), (''width'', [''width''])],
        labelMapInv =
          [(''JL'', ''L''), (''JR'', ''L''), (''backR'', ''backR''),
           (''bottomL'', ''bottomL''), (''depth'', ''depth''),
           (''freq'', ''freq''), (''frontR'', ''frontR''),
           (''height'', ''height''), (''kT'', ''kT''),
           (''molPosL'', ''molPosL''), (''molPosR'', ''molPosR''),
           (''simCount'', ''simCount''), (''t_eq'', ''t_eq''),
           (''topL'', ''topL''), (''width'', ''width'')],
        iters =
          [(''L'', 0), (''backR'', 0), (''bottomL'', 0), (''depth'', 0),
           (''freq'', 0), (''frontR'', 0), (''height'', 0), (''kT'', 0),
           (''molPosL'', 0), (''molPosR'', 0), (''simCount'', 0),
           (''t_eq'', 0), (''topL'', 0), (''width'', 0)],
        iterLengths =
          [(''L'', 2), (''backR'', 1), (''bottomL'', 1), (''depth'', 1),
           (''freq'', 1), (''frontR'', 1), (''height'', 1), (''kT'', 3),
           (''molPosL'', 1), (''molPosR'', 1), (''simCount'', 1),
           (''t_eq'', 1), (''topL'', 1), (''width'', 1)],
        spins = []\<rparr>"

text \<open>Results to tell apart, and the state in which the main loop starts on the example.\<close>

definition toy_result :: "nat \<Rightarrow> (unit, rat) Info \<times> warning list" where
  "toy_result k = (toy_info\<lparr>t_eq := k\<rparr>, [])"

definition toy_state :: "nat \<Rightarrow> (unit, rat) state" where
  "toy_state n = state0 (toy_env n) toy_tables (journal0 (args_of (toy_env n)))"

section \<open>Facts about the readers\<close>

subsection \<open>The loop of the \<^verbatim>\<open>:\<close> operator\<close>

lemma dsum_shift: "round_double (val + inc) = Finite v \<Longrightarrow> dsum val inc (Suc i) = dsum v inc i"
  by (induction i) simp_all

declare dsum.simps(2) [simp del]

lemma dsum_overflow:
  "\<forall>v. round_double (val + inc) \<noteq> Finite v \<Longrightarrow> dsum val inc (Suc i) = round_double (val + inc)"
proof (induction i)
  case 0
  show ?case by (simp add: dsum.simps(2))
next
  case (Suc i)
  have "dsum val inc (Suc (Suc i)) =
      (case dsum val inc (Suc i) of Finite v \<Rightarrow> round_double (v + inc) | d \<Rightarrow> d)"
    by (simp add: dsum.simps(2))
  also have "\<dots> = round_double (val + inc)"
    unfolding Suc.IH [OF Suc.prems] using Suc.prems by (cases "round_double (val + inc)") simp_all
  finally show ?case .
qed

lemma in_range_Finite: "in_range inc lmt d \<Longrightarrow> \<exists>v. d = Finite v \<and> inside inc lmt v"
  by (cases d) simp_all

lemma map_dsum_shift:
  "round_double (val + inc) = Finite v \<Longrightarrow>
   map (\<lambda>i. finite_value (dsum val inc i)) [0..<Suc n] =
     val # map (\<lambda>i. finite_value (dsum v inc i)) [0..<n]"
proof -
  assume r: "round_double (val + inc) = Finite v"
  have "map (\<lambda>i. finite_value (dsum val inc i)) [0..<Suc n] =
      finite_value (dsum val inc 0) # map (\<lambda>i. finite_value (dsum val inc (Suc i))) [0..<n]"
    by (simp add: upt_conv_Cons map_Suc_upt [symmetric] del: upt_Suc)
  then show ?thesis by (simp add: dsum_shift [OF r] del: upt_Suc)
qed

lemma range_loop_returns:
  "(\<forall>i<n. in_range inc lmt (dsum val inc i)) \<Longrightarrow> \<not> in_range inc lmt (dsum val inc n) \<Longrightarrow>
   range_loop vec val lmt inc = Some (vec @ map (\<lambda>i. finite_value (dsum val inc i)) [0..<n])"
proof (induction n arbitrary: vec val)
  case 0
  then show ?case by (subst range_loop.simps) simp
next
  case (Suc n)
  from Suc.prems(1) have i0: "inside inc lmt val" by fastforce
  show ?case
  proof (cases "\<exists>v. round_double (val + inc) = Finite v")
    case True
    then obtain v where r: "round_double (val + inc) = Finite v" by blast
    have a: "\<forall>i<n. in_range inc lmt (dsum v inc i)"
    proof (intro allI impI)
      fix i assume "i < n"
      then have "Suc i < Suc n" by simp
      with Suc.prems(1) have "in_range inc lmt (dsum val inc (Suc i))" by blast
      then show "in_range inc lmt (dsum v inc i)" unfolding dsum_shift [OF r] .
    qed
    have b: "\<not> in_range inc lmt (dsum v inc n)"
      using Suc.prems(2) unfolding dsum_shift [OF r] .
    have "range_loop vec val lmt inc = range_loop (vec @ [val]) v lmt inc"
      using i0 r by (subst range_loop.simps) simp
    also have "\<dots> = Some ((vec @ [val]) @ map (\<lambda>i. finite_value (dsum v inc i)) [0..<n])"
      by (rule Suc.IH [OF a b])
    also have "\<dots> = Some (vec @ map (\<lambda>i. finite_value (dsum val inc i)) [0..<Suc n])"
      by (simp only: map_dsum_shift [OF r]) simp
    finally show ?thesis .
  next
    case False
    then have nf: "\<forall>v. round_double (val + inc) \<noteq> Finite v" by simp
    have n0: "n = 0"
    proof (rule ccontr)
      assume "n \<noteq> 0"
      then have "0 < n" by simp
      then have "Suc 0 < Suc n" by simp
      with Suc.prems(1) have "in_range inc lmt (dsum val inc (Suc 0))" by blast
      then obtain v where "dsum val inc (Suc 0) = Finite v" by (auto dest: in_range_Finite)
      with nf show False by (simp add: dsum.simps(2))
    qed
    have "range_loop vec val lmt inc = Some (vec @ [val])"
      using i0 nf by (subst range_loop.simps) (cases "round_double (val + inc)"; simp)
    then show ?thesis by (simp add: n0)
  qed
qed

lemma range_loop_result_aux:
  "range_loop vec val lmt inc = Some out \<Longrightarrow>
   \<exists>n. (\<forall>i<n. in_range inc lmt (dsum val inc i)) \<and> \<not> in_range inc lmt (dsum val inc n) \<and>
       out = vec @ map (\<lambda>i. finite_value (dsum val inc i)) [0..<n]"
proof (induction rule: range_loop.raw_induct [rotated 1, consumes 1])
  case (1 loop vec val lmt inc out)
  show ?case
  proof (cases "inside inc lmt val")
    case False
    with 1(2) have "out = vec" by simp
    with False show ?thesis by (intro exI [of _ 0]) simp
  next
    case i0: True
    show ?thesis
    proof (cases "round_double (val + inc)")
      case (Finite v)
      with i0 1(2) have "loop (vec @ [val]) v lmt inc = Some out" by simp
      from 1(1) [OF this] obtain n where
        a: "\<forall>i<n. in_range inc lmt (dsum v inc i)" and b: "\<not> in_range inc lmt (dsum v inc n)"
        and o: "out = (vec @ [val]) @ map (\<lambda>i. finite_value (dsum v inc i)) [0..<n]"
        by blast
      have a': "\<forall>i<Suc n. in_range inc lmt (dsum val inc i)"
      proof (intro allI impI)
        fix i assume i: "i < Suc n"
        show "in_range inc lmt (dsum val inc i)"
        proof (cases i)
          case 0
          with i0 show ?thesis by simp
        next
          case (Suc k)
          with i a have "in_range inc lmt (dsum v inc k)" by simp
          then show ?thesis unfolding Suc dsum_shift [OF Finite] .
        qed
      qed
      have b': "\<not> in_range inc lmt (dsum val inc (Suc n))"
        using b unfolding dsum_shift [OF Finite] .
      have o': "out = vec @ map (\<lambda>i. finite_value (dsum val inc i)) [0..<Suc n]"
        using o by (simp only: map_dsum_shift [OF Finite]) simp
      from a' b' o' show ?thesis by blast
    next
      case PInf
      with i0 1(2) have o: "out = vec @ [val]" by simp
      from PInf have "dsum val inc (Suc 0) = PInf" by (simp add: dsum.simps(2))
      then have "\<not> in_range inc lmt (dsum val inc (Suc 0))" by simp
      with i0 o show ?thesis by (intro exI [of _ "Suc 0"]) simp
    next
      case NInf
      with i0 1(2) have o: "out = vec @ [val]" by simp
      from NInf have "dsum val inc (Suc 0) = NInf" by (simp add: dsum.simps(2))
      then have "\<not> in_range inc lmt (dsum val inc (Suc 0))" by simp
      with i0 o show ?thesis by (intro exI [of _ "Suc 0"]) simp
    qed
  qed
qed


lemma dsum_stall: "round_double (val + inc) = Finite val \<Longrightarrow> dsum val inc i = Finite val"
  by (induction i) (simp_all add: dsum.simps(2))

lemma range_loop_stall:
  assumes "inside inc lmt val" "round_double (val + inc) = Finite val"
  shows "range_loop vec val lmt inc = None"
proof (cases "range_loop vec val lmt inc")
  case None
  then show ?thesis .
next
  case (Some out)
  then obtain n where "\<not> in_range inc lmt (dsum val inc n)"
    using range_loop_result_aux by blast
  with assms show ?thesis by (simp add: dsum_stall)
qed

lemma dsum_exact:
  "\<forall>i\<le>n. is_double (val + of_nat i * inc) \<Longrightarrow> i \<le> n \<Longrightarrow>
   dsum val inc i = Finite (val + of_nat i * inc)"
proof (induction i)
  case 0
  show ?case by simp
next
  case (Suc i)
  then have d: "dsum val inc i = Finite (val + of_nat i * inc)" by simp
  from Suc.prems have "is_double (val + of_nat (Suc i) * inc)" by blast
  then have r: "round_double (val + of_nat (Suc i) * inc) = Finite (val + of_nat (Suc i) * inc)"
    by (simp only: is_double_def)
  have e: "val + of_nat i * inc + inc = val + of_nat (Suc i) * inc"
    by (simp add: algebra_simps)
  have "dsum val inc (Suc i) = round_double (val + of_nat i * inc + inc)"
    by (simp add: dsum.simps(2) d)
  then show ?case unfolding e r .
qed

subsection \<open>Rounding\<close>

lemma pow2_powi: "pow2 e = power_int 2 e"
  by (simp add: pow2_def power_int_def inverse_eq_divide power_one_over)

lemma pow2_pos [simp]: "0 < pow2 e"
  by (simp add: pow2_powi)

lemma pow2_nonzero [simp]: "pow2 e \<noteq> 0"
  using pow2_pos [of e] by linarith

lemma pow2_add: "pow2 (i + j) = pow2 i * pow2 j"
  by (simp add: pow2_powi power_int_add)

lemma pow2_nat: "pow2 (int n) = 2 ^ n"
  by (simp add: pow2_def)

lemma pow2_less_iff: "pow2 i < pow2 j \<longleftrightarrow> i < j"
proof
  assume l: "pow2 i < pow2 j"
  show "i < j"
  proof (rule ccontr)
    assume "\<not> i < j"
    then have "j \<le> i" by simp
    then have "pow2 j \<le> pow2 i" unfolding pow2_powi by (intro power_int_increasing) simp_all
    with l show False by simp
  qed
next
  assume "i < j"
  then show "pow2 i < pow2 j" unfolding pow2_powi by (intro power_int_strict_increasing) simp_all
qed

lemma ilog2_bounds:
  assumes "x \<noteq> 0"
  shows "pow2 (ilog2 x) \<le> \<bar>x\<bar> \<and> \<bar>x\<bar> < pow2 (ilog2 x + 1)"
proof -
  obtain a b where q: "quotient_of \<bar>x\<bar> = (a, b)" by (cases "quotient_of \<bar>x\<bar>")
  then have b: "0 < b" by (rule quotient_of_denom_pos)
  from q have x: "\<bar>x\<bar> = of_int a / of_int b" by (rule quotient_of_div)
  from assms have "0 < \<bar>x\<bar>" by simp
  with x b have a: "0 < a" by (simp add: zero_less_divide_iff)
  define d where "d = bitlen a - bitlen b"
  from bitlen_bounds [OF a] have a1: "2 ^ nat (bitlen a - 1) \<le> a" and a2: "a < 2 ^ nat (bitlen a)"
    by simp_all
  from bitlen_bounds [OF b] have b1: "2 ^ nat (bitlen b - 1) \<le> b" and b2: "b < 2 ^ nat (bitlen b)"
    by simp_all
  have ba: "1 \<le> bitlen a" using a by (simp add: bitlen_alt_def)
  have bb: "1 \<le> bitlen b" using b by (simp add: bitlen_alt_def)
  have ra1: "pow2 (bitlen a - 1) \<le> of_int a"
  proof -
    have "(of_int (2 ^ nat (bitlen a - 1)) :: rat) \<le> of_int a" using a1 by (simp only: of_int_le_iff)
    then show ?thesis using ba by (simp add: pow2_def)
  qed
  have ra2: "of_int a < pow2 (bitlen a)"
  proof -
    have "(of_int a :: rat) < of_int (2 ^ nat (bitlen a))" using a2 by (simp only: of_int_less_iff)
    then show ?thesis using ba by (simp add: pow2_def)
  qed
  have rb1: "pow2 (bitlen b - 1) \<le> of_int b"
  proof -
    have "(of_int (2 ^ nat (bitlen b - 1)) :: rat) \<le> of_int b" using b1 by (simp only: of_int_le_iff)
    then show ?thesis using bb by (simp add: pow2_def)
  qed
  have rb2: "of_int b < pow2 (bitlen b)"
  proof -
    have "(of_int b :: rat) < of_int (2 ^ nat (bitlen b))" using b2 by (simp only: of_int_less_iff)
    then show ?thesis using bb by (simp add: pow2_def)
  qed
  have rb: "(0 :: rat) < of_int b" using b by simp
  have up: "\<bar>x\<bar> < pow2 (d + 1)"
  proof -
    have "of_int a < pow2 (d + 1) * pow2 (bitlen b - 1)"
      using ra2 by (simp add: pow2_add [symmetric] d_def)
    also have "\<dots> \<le> pow2 (d + 1) * of_int b"
      using rb1 by (simp add: mult_left_mono)
    finally show ?thesis using rb by (simp add: x pos_divide_less_eq)
  qed
  have lo: "pow2 (d - 1) < \<bar>x\<bar>"
  proof -
    have "pow2 (d - 1) * of_int b < pow2 (d - 1) * pow2 (bitlen b)"
      using rb2 by (simp add: mult_strict_left_mono)
    also have "\<dots> = pow2 (bitlen a - 1)"
      by (simp add: pow2_add [symmetric] d_def)
    also have "\<dots> \<le> of_int a" by (rule ra1)
    finally show ?thesis using rb by (simp add: x pos_less_divide_eq)
  qed
  have il: "ilog2 x = (if pow2 d \<le> \<bar>x\<bar> then d else d - 1)"
    by (simp add: ilog2_def q d_def Let_def)
  show ?thesis
  proof (cases "pow2 d \<le> \<bar>x\<bar>")
    case True
    with up il show ?thesis by simp
  next
    case False
    with lo il show ?thesis by simp
  qed
qed

lemma ilog2_unique:
  assumes "pow2 e \<le> \<bar>x\<bar>" "\<bar>x\<bar> < pow2 (e + 1)"
  shows "ilog2 x = e"
proof -
  have "0 < pow2 e" by simp
  with assms(1) have "0 < \<bar>x\<bar>" by linarith
  then have "x \<noteq> 0" by simp
  from ilog2_bounds [OF this] have b: "pow2 (ilog2 x) \<le> \<bar>x\<bar>" "\<bar>x\<bar> < pow2 (ilog2 x + 1)"
    by simp_all
  from b(1) assms(2) have "pow2 (ilog2 x) < pow2 (e + 1)" by (rule le_less_trans)
  then have 1: "ilog2 x < e + 1" by (simp only: pow2_less_iff)
  from assms(1) b(2) have "pow2 e < pow2 (ilog2 x + 1)" by (rule le_less_trans)
  then have 2: "e < ilog2 x + 1" by (simp only: pow2_less_iff)
  from 1 2 show ?thesis by simp
qed

lemma round_half_even_int [simp]: "round_half_even (of_int m) = m"
  by (simp add: round_half_even_def)

lemma fl_value:
  "pow2 e \<le> \<bar>x\<bar> \<Longrightarrow> \<bar>x\<bar> < pow2 (e + 1) \<Longrightarrow>
   fl x = of_int (round_half_even (x / pow2 (max (e - 52) (- 1074)))) * pow2 (max (e - 52) (- 1074))"
proof -
  assume a: "pow2 e \<le> \<bar>x\<bar>" "\<bar>x\<bar> < pow2 (e + 1)"
  have "0 < pow2 e" by simp
  with a(1) have "0 < \<bar>x\<bar>" by linarith
  then have "x \<noteq> 0" by simp
  then show ?thesis by (simp add: fl_def ilog2_unique [OF a] Let_def)
qed

lemma fl_exact:
  assumes x: "x = of_int m * pow2 e" and m: "\<bar>m\<bar> < 2 ^ 53" and e: "- 1074 \<le> e"
  shows "fl x = x"
proof (cases "x = 0")
  case True
  then show ?thesis by (simp add: fl_def)
next
  case False
  define qe where "qe = max (ilog2 x - 52) (- 1074)"
  from ilog2_bounds [OF False] have "pow2 (ilog2 x) \<le> \<bar>x\<bar>" by simp
  also have "\<bar>x\<bar> = of_int \<bar>m\<bar> * pow2 e" by (simp add: x abs_mult abs_of_pos)
  also have "\<dots> < of_int (2 ^ 53) * pow2 e"
    using m by (intro mult_strict_right_mono) (simp_all only: of_int_less_iff pow2_pos)
  also have "\<dots> = pow2 (53 + e)"
  proof -
    have "(of_int (2 ^ 53) :: rat) = pow2 (int 53)" by (simp only: pow2_nat of_int_power of_int_numeral)
    then show ?thesis by (simp only: pow2_add) simp
  qed
  finally have "ilog2 x < 53 + e" by (simp only: pow2_less_iff)
  with e have le: "qe \<le> e" by (simp add: qe_def)
  then obtain n where n: "e = qe + int n" by (metis zle_iff_zadd)
  have "x / pow2 qe = of_int m * pow2 (int n)"
    by (simp add: x n pow2_add)
  also have "\<dots> = of_int (m * 2 ^ n)" by (simp add: pow2_nat)
  finally have d: "x / pow2 qe = of_int (m * 2 ^ n)" .
  have "fl x = of_int (round_half_even (x / pow2 qe)) * pow2 qe"
    using False by (simp add: fl_def qe_def Let_def)
  also have "\<dots> = of_int (m * 2 ^ n) * pow2 qe" by (simp only: d round_half_even_int)
  also have "\<dots> = x" by (simp add: x n pow2_add pow2_nat)
  finally show ?thesis .
qed

lemma is_doubleI:
  assumes "x = of_int m * pow2 e" "\<bar>m\<bar> < 2 ^ 53" "- 1074 \<le> e" "\<bar>x\<bar> < 2 ^ 1024"
  shows "is_double x"
proof -
  from assms(4) have a: "\<not> 2 ^ 1024 \<le> x" and b: "\<not> x \<le> - (2 ^ 1024)" by linarith+
  show ?thesis
    unfolding is_double_def round_double_def Let_def fl_exact [OF assms(1-3)]
    using a b by (simp only: if_False)
qed

lemma is_double_int:
  assumes "\<bar>k\<bar> < 2 ^ 53"
  shows "is_double (of_int k)"
proof (rule is_doubleI [of _ k 0])
  show "(of_int k :: rat) = of_int k * pow2 0" by (simp add: pow2_def)
  show "\<bar>k\<bar> < 2 ^ 53" by fact
  show "- 1074 \<le> (0 :: int)" by simp
  have "\<bar>of_int k :: rat\<bar> = of_int \<bar>k\<bar>" by simp
  also have "\<dots> < of_int (2 ^ 53)" using assms by (simp only: of_int_less_iff)
  also have "\<dots> < 2 ^ 1024" by simp
  finally show "\<bar>of_int k :: rat\<bar> < 2 ^ 1024" .
qed

lemma fl_256:
  assumes "\<bar>k\<bar> < 2 ^ 53"
  shows "fl (of_int k / 256) = of_int k / 256"
proof (rule fl_exact [of _ k "- 8"])
  show "(of_int k / 256 :: rat) = of_int k * pow2 (- 8)" by (simp add: pow2_def)
  show "\<bar>k\<bar> < 2 ^ 53" by fact
  show "- 1074 \<le> (- 8 :: int)" by simp
qed

lemma is_double_256:
  assumes "\<bar>k\<bar> < 2 ^ 53"
  shows "is_double (of_int k / 256)"
proof (rule is_doubleI [of _ k "- 8"])
  show "(of_int k / 256 :: rat) = of_int k * pow2 (- 8)" by (simp add: pow2_def)
  show "\<bar>k\<bar> < 2 ^ 53" by fact
  show "- 1074 \<le> (- 8 :: int)" by simp
  have "\<bar>of_int k / 256 :: rat\<bar> \<le> of_int \<bar>k\<bar>" by simp
  also have "\<dots> < of_int (2 ^ 53)" using assms by (simp only: of_int_less_iff)
  also have "\<dots> < 2 ^ 1024" by simp
  finally show "\<bar>of_int k / 256 :: rat\<bar> < 2 ^ 1024" .
qed

subsection \<open>The stream\<close>

lemma next_word_Some_concat: "next_word s = Some (t, s') \<Longrightarrow> concat s = t # concat s'"
  by (induction s rule: next_word.induct) auto

lemma concat_next_word: "concat s = t # r \<Longrightarrow> \<exists>s'. next_word s = Some (t, s') \<and> concat s' = r"
  by (induction s rule: next_word.induct) auto

lemma concat_Nil_next_word: "concat s = [] \<Longrightarrow> next_word s = None"
  by (induction s rule: next_word.induct) auto


lemma within_iff:
  fixes start lmt step :: rat
  assumes "step \<noteq> 0"
  shows "(i < nat \<lceil>(lmt - start) / step\<rceil>) =
     (if step > 0 then start + of_nat i * step < lmt else start + of_nat i * step > lmt)"
proof -
  have "(i < nat \<lceil>(lmt - start) / step\<rceil>) = (int i < \<lceil>(lmt - start) / step\<rceil>)"
    by linarith
  also have "\<dots> = (of_nat i < (lmt - start) / step)"
    by (simp add: less_ceiling_iff)
  also have "\<dots> = (if step > 0 then start + of_nat i * step < lmt else start + of_nat i * step > lmt)"
  proof (cases "step > 0")
    case True
    then show ?thesis by (simp add: pos_less_divide_eq algebra_simps)
  next
    case False
    with assms have "step < 0" by simp
    then show ?thesis using False by (simp add: neg_less_divide_eq algebra_simps)
  qed
  finally show ?thesis .
qed

lemma range_loop_exact:
  assumes nz: "inc \<noteq> 0"
    and d: "\<forall>i\<le>nat \<lceil>(lmt - val) / inc\<rceil>. is_double (val + of_nat i * inc)"
  shows "range_loop vec val (Finite lmt) inc =
     Some (vec @ map (\<lambda>i. val + of_nat i * inc) [0..<nat \<lceil>(lmt - val) / inc\<rceil>])"
proof -
  let ?n = "nat \<lceil>(lmt - val) / inc\<rceil>"
  have s: "dsum val inc i = Finite (val + of_nat i * inc)" if "i \<le> ?n" for i
    using dsum_exact [OF d that] .
  have w: "in_range inc (Finite lmt) (Finite (val + of_nat i * inc)) = (i < ?n)" for i
    using nz within_iff [OF nz, of i lmt val] by (auto simp: inside_def)
  have a: "\<forall>i<?n. in_range inc (Finite lmt) (dsum val inc i)"
  proof (intro allI impI)
    fix i assume i: "i < ?n"
    then have "i \<le> ?n" by simp
    from s [OF this] w [of i] i show "in_range inc (Finite lmt) (dsum val inc i)" by simp
  qed
  have b: "\<not> in_range inc (Finite lmt) (dsum val inc ?n)"
    using s [of ?n] w [of ?n] by simp
  have "map (\<lambda>i. finite_value (dsum val inc i)) [0..<?n] = map (\<lambda>i. val + of_nat i * inc) [0..<?n]"
  proof (rule map_cong [OF refl])
    fix i assume "i \<in> set [0..<?n]"
    then have "i \<le> ?n" by simp
    from s [OF this] show "finite_value (dsum val inc i) = val + of_nat i * inc" by simp
  qed
  with range_loop_returns [OF a b, of vec] show ?thesis by simp
qed

lemma sums_bounded:
  fixes a L st :: rat
  assumes nz: "st \<noteq> 0" and i: "i \<le> nat \<lceil>(L - a) / st\<rceil>"
  shows "\<bar>a + of_nat i * st\<bar> \<le> \<bar>a\<bar> + \<bar>L\<bar> + \<bar>st\<bar>"
proof (cases "\<lceil>(L - a) / st\<rceil> \<le> 0")
  case True
  with i have "i = 0" by simp
  then show ?thesis by simp
next
  case False
  define y where "y = (L - a) / st"
  from False have c: "0 < \<lceil>y\<rceil>" by (simp add: y_def)
  have "of_nat i \<le> (of_nat (nat \<lceil>y\<rceil>) :: rat)" using i by (simp add: y_def)
  also have "\<dots> = of_int \<lceil>y\<rceil>" using c by simp
  also have "\<dots> < y + 1" using ceiling_correct [of y] by linarith
  finally have ub: "of_nat i < y + 1" .
  have lb: "(0 :: rat) \<le> of_nat i" by simp
  have ys: "y * st = L - a" using nz by (simp add: y_def)
  have e: "(y + 1) * st = L - a + st" by (simp add: distrib_right ys)
  show ?thesis
  proof (cases "0 < st")
    case True
    from ub True have "of_nat i * st < (y + 1) * st" by (simp add: mult_strict_right_mono)
    then have 1: "of_nat i * st < L - a + st" by (simp only: e)
    from lb True have 2: "0 \<le> of_nat i * st" by simp
    from 1 2 show ?thesis by linarith
  next
    case False
    with nz have neg: "st < 0" by simp
    from ub neg have "(y + 1) * st < of_nat i * st" by (simp add: mult_strict_right_mono_neg)
    then have 1: "L - a + st < of_nat i * st" by (simp only: e)
    from lb neg have 2: "of_nat i * st \<le> 0" by (simp add: mult_nonneg_nonpos)
    from 1 2 show ?thesis by linarith
  qed
qed

lemma limit_ints:
  fixes l st :: int
  assumes l: "\<bar>l\<bar> \<le> 2 ^ 40" and st: "\<bar>st\<bar> \<le> 2 ^ 40"
  shows "round_double (of_int l + fl (of_int st / 256)) = Finite (of_int l + of_int st / 256)"
proof -
  let ?L = "of_int l + of_int st / 256 :: rat"
  from st have "\<bar>st\<bar> < 2 ^ 53" by simp
  then have t: "fl (of_int st / 256) = of_int st / 256" by (rule fl_256)
  have "\<bar>256 * l + st\<bar> < 2 ^ 53" using l st by simp
  then have "is_double (of_int (256 * l + st) / 256)" by (rule is_double_256)
  then have "round_double (of_int (256 * l + st) / 256) = Finite (of_int (256 * l + st) / 256)"
    by (simp only: is_double_def)
  moreover have "(of_int (256 * l + st) / 256 :: rat) = ?L" by simp
  ultimately have "round_double ?L = Finite ?L" by (simp only:)
  then show ?thesis by (simp only: t)
qed

lemma sums_ints:
  fixes a l st :: int
  assumes nz: "st \<noteq> 0" and a: "\<bar>a\<bar> \<le> 2 ^ 40" and l: "\<bar>l\<bar> \<le> 2 ^ 40" and st: "\<bar>st\<bar> \<le> 2 ^ 40"
  shows "\<forall>i\<le>nat \<lceil>(of_int l + of_int st / 256 - of_int a :: rat) / of_int st\<rceil>.
     is_double (of_int a + of_nat i * of_int st)"
proof (intro allI impI)
  let ?L = "of_int l + of_int st / 256 :: rat"
  fix i assume i: "i \<le> nat \<lceil>(?L - of_int a) / of_int st\<rceil>"
  have nz': "(of_int st :: rat) \<noteq> 0" using nz by simp
  let ?k = "a + int i * st"
  have "\<bar>of_int ?k :: rat\<bar> = \<bar>of_int a + of_nat i * of_int st\<bar>" by simp
  also have "\<dots> \<le> \<bar>of_int a\<bar> + \<bar>?L\<bar> + \<bar>of_int st\<bar>"
    by (rule sums_bounded [OF nz' i])
  also have "\<dots> \<le> of_int \<bar>a\<bar> + (of_int \<bar>l\<bar> + of_int \<bar>st\<bar>) + of_int \<bar>st\<bar>"
  proof -
    have "\<bar>?L\<bar> \<le> \<bar>of_int l\<bar> + \<bar>of_int st / 256 :: rat\<bar>" by (rule abs_triangle_ineq)
    also have "\<bar>of_int st / 256 :: rat\<bar> \<le> \<bar>of_int st\<bar>" by simp
    finally show ?thesis by simp
  qed
  also have "\<dots> = of_int (\<bar>a\<bar> + \<bar>l\<bar> + 2 * \<bar>st\<bar>)" by simp
  finally have "(of_int \<bar>?k\<bar> :: rat) \<le> of_int (\<bar>a\<bar> + \<bar>l\<bar> + 2 * \<bar>st\<bar>)" by simp
  then have "\<bar>?k\<bar> \<le> \<bar>a\<bar> + \<bar>l\<bar> + 2 * \<bar>st\<bar>" by (simp only: of_int_le_iff)
  with a l st have "\<bar>?k\<bar> < 2 ^ 53" by simp
  then have "is_double (of_int ?k)" by (rule is_double_int)
  then show "is_double (of_int a + of_nat i * of_int st)" by simp
qed

lemma range_loop_ints:
  fixes a l st :: int
  assumes nz: "st \<noteq> 0" and a: "\<bar>a\<bar> \<le> 2 ^ 40" and l: "\<bar>l\<bar> \<le> 2 ^ 40" and st: "\<bar>st\<bar> \<le> 2 ^ 40"
  shows "range_loop vec (of_int a) (round_double (of_int l + fl (of_int st / 256))) (of_int st) =
     Some (vec @ map (\<lambda>i. of_int a + of_nat i * of_int st)
                     [0..<nat \<lceil>(of_int l + of_int st / 256 - of_int a :: rat) / of_int st\<rceil>])"
proof -
  have nz': "(of_int st :: rat) \<noteq> 0" using nz by simp
  from range_loop_exact [OF nz' sums_ints [OF nz a l st], of vec] show ?thesis
    by (simp only: limit_ints [OF l st])
qed

text \<open>The loops of the examples.\<close>

lemma range_evals:
  "range_loop [] 1 (round_double (5 + fl (1 / 256))) 1 = Some [1, 2, 3, 4, 5]"
  "range_loop [] 5 (round_double (1 + fl (- (1 / 256)))) (- 1) = Some [5, 4, 3, 2, 1]"
  "range_loop [] 1 (round_double (3 + fl (1 / 256))) 1 = Some [1, 2, 3]"
  "range_loop [] 5 (round_double (1 + fl (1 / 256))) 1 = Some []"
proof -
  have c: "\<lceil>1025 / 256 :: rat\<rceil> = 5" "\<lceil>1023 / 256 :: rat\<rceil> = 4" "\<lceil>513 / 256 :: rat\<rceil> = 3"
    "\<lceil>- (767 / 256) :: rat\<rceil> = - 2"
    by (simp_all add: ceiling_eq_iff)
  show "range_loop [] 1 (round_double (5 + fl (1 / 256))) 1 = Some [1, 2, 3, 4, 5]"
    using range_loop_ints [of 1 1 5 "[]"] by (simp add: c upt_rec)
  show "range_loop [] 5 (round_double (1 + fl (- (1 / 256)))) (- 1) = Some [5, 4, 3, 2, 1]"
    using range_loop_ints [of "- 1" 5 1 "[]"] by (simp add: c upt_rec)
  show "range_loop [] 1 (round_double (3 + fl (1 / 256))) 1 = Some [1, 2, 3]"
    using range_loop_ints [of 1 1 3 "[]"] by (simp add: c upt_rec)
  show "range_loop [] 5 (round_double (1 + fl (1 / 256))) 1 = Some []"
    using range_loop_ints [of 1 5 1 "[]"] by (simp add: c upt_rec)
qed


lemma round_half_even_near:
  assumes "of_int n - 1 / 2 < y" "y < of_int n + 1 / 2"
  shows "round_half_even y = n"
proof (cases "of_int n \<le> y")
  case True
  with assms(2) have "\<lfloor>y\<rfloor> = n" by (intro floor_unique) simp_all
  with True assms(2) show ?thesis by (simp add: round_half_even_def Let_def)
next
  case False
  with assms(1) have "\<lfloor>y\<rfloor> = n - 1" by (intro floor_unique) simp_all
  with False assms(1) show ?thesis by (simp add: round_half_even_def Let_def)
qed

lemma round_half_even_tie:
  assumes "even n" "y = of_int n + 1 / 2 \<or> y = of_int n - 1 / 2"
  shows "round_half_even y = n"
  using assms(2)
proof
  assume y: "y = of_int n + 1 / 2"
  then have "\<lfloor>y\<rfloor> = n" by (intro floor_unique) simp_all
  with y assms(1) show ?thesis by (simp add: round_half_even_def Let_def)
next
  assume y: "y = of_int n - 1 / 2"
  then have "\<lfloor>y\<rfloor> = n - 1" by (intro floor_unique) simp_all
  with y assms(1) show ?thesis by (simp add: round_half_even_def Let_def)
qed

lemma fl_near:
  assumes "pow2 e \<le> \<bar>x\<bar>" "\<bar>x\<bar> < pow2 (e + 1)" "q = pow2 (max (e - 52) (- 1074))"
    and "of_int n - 1 / 2 < x / q" "x / q < of_int n + 1 / 2"
  shows "fl x = of_int n * q"
  unfolding fl_value [OF assms(1,2)] assms(3) [symmetric]
  by (simp only: round_half_even_near [OF assms(4,5)])

lemma fl_tie:
  assumes "pow2 e \<le> \<bar>x\<bar>" "\<bar>x\<bar> < pow2 (e + 1)" "q = pow2 (max (e - 52) (- 1074))"
    and "even n" "x / q = of_int n + 1 / 2 \<or> x / q = of_int n - 1 / 2"
  shows "fl x = of_int n * q"
  unfolding fl_value [OF assms(1,2)] assms(3) [symmetric]
  by (simp only: round_half_even_tie [OF assms(4,5)])

lemma fl_examples:
  "fl (9007199254740992 + 1) = 9007199254740992"
  "fl (9007199254740994 + 1 / 256) = 9007199254740994"
proof -
  have "fl (9007199254740992 + 1) = of_int 4503599627370496 * 2"
    by (rule fl_tie [of 53]) (simp_all add: pow2_def)
  then show "fl (9007199254740992 + 1) = 9007199254740992" by simp
  have "fl (9007199254740994 + 1 / 256) = of_int 4503599627370497 * 2"
    by (rule fl_near [of 53]) (simp_all add: pow2_def)
  then show "fl (9007199254740994 + 1 / 256) = 9007199254740994" by simp
qed


lemma big: "\<not> (2 :: rat) ^ 1024 \<le> 9007199254740994" "\<not> (9007199254740994 :: rat) \<le> - (2 ^ 1024)"
  "\<not> (2 :: rat) ^ 1024 \<le> 9007199254740992" "\<not> (9007199254740992 :: rat) \<le> - (2 ^ 1024)"
  by simp_all

lemma stall_example:
  "range_loop vec 9007199254740992 (round_double (9007199254740994 + fl (1 / 256))) 1 = None"
proof (rule range_loop_stall)
  have t: "fl (1 / 256) = 1 / 256" using fl_256 [of 1] by simp
  have "round_double (9007199254740994 + fl (1 / 256)) = Finite 9007199254740994"
    unfolding t round_double_def Let_def fl_examples by (simp only: big if_False)
  then show "inside 1 (round_double (9007199254740994 + fl (1 / 256))) 9007199254740992"
    by (simp add: inside_def)
  show "round_double (9007199254740992 + 1) = Finite 9007199254740992"
    unfolding round_double_def Let_def fl_examples by (simp only: big if_False)
qed


lemma round_double_finite: "fl x = y \<Longrightarrow> \<bar>y\<bar> < 2 ^ 1024 \<Longrightarrow> round_double x = Finite y"
proof -
  assume f: "fl x = y" and "\<bar>y\<bar> < 2 ^ 1024"
  then have a: "\<not> 2 ^ 1024 \<le> y" and b: "\<not> y \<le> - (2 ^ 1024)" by linarith+
  show ?thesis unfolding round_double_def Let_def f using a b by (simp only: if_False)
qed

lemma tenth_loop:
  "range_loop [] (3602879701896397 / 36028797018963968)
     (round_double (5404319552844595 / 18014398509481984 + fl (3602879701896397 / 36028797018963968 / 256)))
     (3602879701896397 / 36028797018963968) =
   Some [3602879701896397 / 36028797018963968, 3602879701896397 / 18014398509481984,
         1351079888211149 / 4503599627370496]"
proof -
  define d1 :: rat where "d1 = 3602879701896397 / 36028797018963968"
  define d3 :: rat where "d3 = 5404319552844595 / 18014398509481984"
  define v1 :: rat where "v1 = 3602879701896397 / 18014398509481984"
  define v2 :: rat where "v2 = 1351079888211149 / 4503599627370496"
  define v3 :: rat where "v3 = 3602879701896397 / 9007199254740992"
  define lm :: rat where "lm = 5411356427262361 / 18014398509481984"
  have t: "fl (d1 / 256) = d1 / 256"
    by (rule fl_exact [of _ 3602879701896397 "- 63"]) (simp_all add: d1_def pow2_def)
  have "fl (d3 + d1 / 256) = of_int 5411356427262361 * pow2 (- 54)"
    by (rule fl_near [of "- 2"]) (simp_all add: d1_def d3_def pow2_def)
  then have "fl (d3 + d1 / 256) = lm" by (simp add: lm_def pow2_def)
  then have l: "round_double (d3 + fl (d1 / 256)) = Finite lm"
    unfolding t by (rule round_double_finite) (simp add: lm_def)
  have "fl (d1 + d1) = d1 + d1"
    by (rule fl_exact [of _ 3602879701896397 "- 54"]) (simp_all add: d1_def pow2_def)
  then have "fl (d1 + d1) = v1" by (simp add: d1_def v1_def)
  then have r1: "round_double (d1 + d1) = Finite v1"
    by (rule round_double_finite) (simp add: v1_def)
  have "fl (v1 + d1) = of_int 5404319552844596 * pow2 (- 54)"
    by (rule fl_tie [of "- 2"]) (simp_all add: d1_def v1_def pow2_def)
  then have "fl (v1 + d1) = v2" by (simp add: v2_def pow2_def)
  then have r2: "round_double (v1 + d1) = Finite v2"
    by (rule round_double_finite) (simp add: v2_def)
  have "fl (v2 + d1) = of_int 7205759403792794 * pow2 (- 54)"
    by (rule fl_tie [of "- 2"]) (simp_all add: d1_def v2_def pow2_def)
  then have "fl (v2 + d1) = v3" by (simp add: v3_def pow2_def)
  then have r3: "round_double (v2 + d1) = Finite v3"
    by (rule round_double_finite) (simp add: v3_def)
  have i: "inside d1 (Finite lm) d1" "inside d1 (Finite lm) v1" "inside d1 (Finite lm) v2"
    "\<not> inside d1 (Finite lm) v3"
    by (simp_all add: inside_def d1_def v1_def v2_def v3_def lm_def)
  have "range_loop [] d1 (Finite lm) d1 = range_loop ([] @ [d1]) v1 (Finite lm) d1"
    by (subst range_loop.simps) (simp only: i r1 if_True double.case)
  also have "\<dots> = range_loop (([] @ [d1]) @ [v1]) v2 (Finite lm) d1"
    by (subst range_loop.simps) (simp only: i r2 if_True double.case)
  also have "\<dots> = range_loop ((([] @ [d1]) @ [v1]) @ [v2]) v3 (Finite lm) d1"
    by (subst range_loop.simps) (simp only: i r3 if_True double.case)
  also have "\<dots> = Some ((([] @ [d1]) @ [v1]) @ [v2])"
    by (subst range_loop.simps) (simp only: i if_False)
  finally have "range_loop [] d1 (round_double (d3 + fl (d1 / 256))) d1 = Some [d1, v1, v2]"
    by (simp only: l append_Nil append_Cons)
  then show ?thesis unfolding d1_def d3_def v1_def v2_def .
qed

lemmas std_reads = std_lib_def decimal_def natural_def digit_def next_num_def

subsection \<open>The tables\<close>

lemma map_of_sm_put [simp]: "map_of (sm_put k v m) = (map_of m)(k \<mapsto> v)"
  by (induction m) (auto simp: fun_eq_iff)

lemma sm_find_sm_put: "sm_find (sm_put k v m) k' = (if k' = k then Some v else sm_find m k')"
  by (simp add: sm_find_def)

lemma sm_get_sm_put: "sm_get d (sm_put k v m) k' = (if k' = k then v else sm_get d m k')"
  by (simp add: sm_get_def)

lemma set_sm_put: "set (sm_put k v m) \<subseteq> insert (k, v) (set m)"
  by (induction m) (auto split: if_splits)

lemma keys_sm_put: "fst ` set (sm_put k v m) = insert k (fst ` set m)"
  by (simp add: dom_map_of_conv_image_fst [symmetric])

lemma sm_find_None_iff: "sm_find m k = None \<longleftrightarrow> k \<notin> fst ` set m"
  by (simp add: sm_find_def map_of_eq_None_iff)

lemma tables_ok_empty: "tables_ok empty_tables"
  by (simp add: tables_ok_def empty_tables_def)

lemma add_param_ok:
  assumes "add_param tb key lbl0 vec = Inr tb'" "tables_ok tb" "1 \<le> length vec"
  shows "tables_ok tb'"
proof -
  define lbl where "lbl = (if length lbl0 = 0 then key else lbl0)"
  define tb1 where "tb1 = tb\<lparr>p := sm_put key vec (p tb),
                   labelNames := (if sm_find (labelMap tb) lbl = None then labelNames tb @ [lbl]
                                  else labelNames tb),
                   labelMap := sm_put lbl (ss_insert key (sm_get [] (labelMap tb) lbl)) (labelMap tb),
                   labelMapInv := sm_put key lbl (labelMapInv tb),
                   iters := sm_put lbl 0 (iters tb)\<rparr>"
  have names: "set (labelNames tb1) = insert lbl (set (labelNames tb))"
    using assms(2) by (auto simp: tb1_def tables_ok_def sm_find_None_iff)
  have dist: "distinct (labelNames tb1)"
    using assms(2) by (auto simp: tb1_def tables_ok_def sm_find_None_iff)
  have its: "\<forall>(l, n) \<in> set (iters tb1). n = 0"
    using assms(2) set_sm_put [of lbl 0 "iters tb"] by (auto simp: tb1_def tables_ok_def)
  have ps: "\<forall>(k, vec) \<in> set (p tb1). 1 \<le> length vec"
    using assms(2,3) set_sm_put [of key vec "p tb"] by (auto simp: tb1_def tables_ok_def)
  have part: "distinct (labelNames tb1) \<and>
     fst ` set (labelMap tb1) = set (labelNames tb1) \<and>
     fst ` set (iters tb1) = set (labelNames tb1) \<and>
     (\<forall>(l, n) \<in> set (iters tb1). n = 0) \<and>
     (\<forall>(k, vec) \<in> set (p tb1). 1 \<le> length vec)"
    using names dist its ps assms(2) by (simp add: tb1_def tables_ok_def keys_sm_put)
  have ap: "add_param tb key lbl0 vec =
     (case sm_find (iterLengths tb) lbl of
           None \<Rightarrow> Inr (tb1\<lparr>iterLengths := sm_put lbl (length vec) (iterLengths tb)\<rparr>)
         | Some n \<Rightarrow>
             if n \<noteq> length vec then Inl (InconsistentSize lbl key vec (length vec) n)
             else Inr tb1)"
    unfolding add_param_def Let_def lbl_def tb1_def ..
  show ?thesis
  proof (cases "sm_find (iterLengths tb) lbl")
    case None
    with assms(1) have tb': "tb' = tb1\<lparr>iterLengths := sm_put lbl (length vec) (iterLengths tb)\<rparr>"
      by (simp add: ap)
    have "\<forall>(l, n) \<in> set (sm_put lbl (length vec) (iterLengths tb)). 1 \<le> n"
      using assms(2,3) set_sm_put [of lbl "length vec" "iterLengths tb"]
      by (auto simp: tables_ok_def)
    moreover have "fst ` set (sm_put lbl (length vec) (iterLengths tb)) = set (labelNames tb1)"
      using names assms(2) by (simp add: keys_sm_put tables_ok_def)
    ultimately show ?thesis using part by (simp add: tb' tables_ok_def)
  next
    case (Some n)
    with assms(1) have tb': "tb' = tb1"
      by (simp add: ap split: if_splits)
    from Some have "lbl \<in> fst ` set (iterLengths tb)"
      using sm_find_None_iff [of "iterLengths tb" lbl] by simp
    then have "set (labelNames tb1) = fst ` set (iterLengths tb1)"
      using names assms(2) by (auto simp: tables_ok_def tb1_def)
    moreover have "\<forall>(l, n) \<in> set (iterLengths tb1). 1 \<le> n"
      using assms(2) by (simp add: tables_ok_def tb1_def)
    ultimately show ?thesis using part by (simp add: tb' tables_ok_def)
  qed
qed

lemma parse_ops_nonempty:
  "parse_ops L vec lbl s = Inr (vec', lbl', str', s') \<Longrightarrow> 1 \<le> length vec'"
proof (induction L vec lbl s rule: parse_ops.induct)
  case (1 L vec lbl s)
  from "1.prems" obtain str s1 where w: "next_word s = Some (str, s1)"
    by (cases "next_word s") (auto simp: parse_ops.simps)
  consider (eq) "str = ''=''" | (colon) "str = '':''" | (brace) "str = ''{''"
    | (label) "str \<noteq> ''=''" "str \<noteq> '':''" "str \<noteq> ''{''"
    by blast
  then show ?case
  proof cases
    case eq
    with "1.prems" w show ?thesis
      by (auto simp: parse_ops.simps split: option.splits)
  next
    case colon
    from "1.prems" w colon obtain val s2 lmt s3 inc s4 where
      n: "next_num (read_double L) s1 = Some (val, s2)"
         "next_num (read_double L) s2 = Some (lmt, s3)"
         "next_num (read_double L) s3 = Some (inc, s4)" and nz: "inc \<noteq> 0"
      by (auto simp: parse_ops.simps split: option.splits if_splits)
    from "1.prems" w colon n nz obtain vs where
      r: "range_loop vec val (round_double (lmt + fl (inc / 256))) inc = Some vs"
      by (cases "range_loop vec val (round_double (lmt + fl (inc / 256))) inc")
        (simp_all add: parse_ops.simps [of L vec lbl s])
    show ?thesis
    proof (cases "length vs \<le> 0")
      case True
      with "1.prems" w colon n nz r
      have "parse_ops L vs lbl s4 = Inr (vec', lbl', str', s')"
        by (simp add: parse_ops.simps [of L vec lbl s])
      from "1.IH"(1) [OF w refl _ colon n(1) refl n(2) refl n(3) refl nz r True this]
      show ?thesis using colon by simp
    next
      case False
      with "1.prems" w colon n nz r have "vec' = vs"
        by (simp add: parse_ops.simps [of L vec lbl s])
      with False show ?thesis by (simp add: Suc_le_eq)
    qed
  next
    case brace
    obtain vs s2 where rv: "read_vals (read_double L) vec s1 = (vs, s2)"
      by (cases "read_vals (read_double L) vec s1")
    with "1.prems" w brace show ?thesis
      by (auto simp: parse_ops.simps [of L vec lbl s] Suc_le_eq split: option.splits if_splits)
  next
    case label
    with "1.prems" w have e: "length lbl = 0"
      and r: "parse_ops L vec str s1 = Inr (vec', lbl', str', s')"
      by (auto simp: parse_ops.simps [of L vec lbl s] split: if_splits)
    from "1.IH"(2) [OF w refl label(1) label(2) label(3) e r] show ?thesis by simp
  qed
qed

lemma parse_loop_end:
  "f \<or> next_word s = None \<Longrightarrow> parse_loop L tb str s f = Inr tb"
  by (subst parse_loop.simps) auto

lemma parse_loop_step:
  "next_word s = Some (key, s1) \<Longrightarrow>
   parse_loop L tb str s False =
     (if first_is CHR ''#'' key then
        (case s1 of
           [] \<Rightarrow> Inr tb
         | l # ls \<Rightarrow> parse_loop L tb (getline_text l) ls False)
      else if first_is CHR ''['' key then
        (case parse_spin L key str s1 of
           Inl e \<Rightarrow> Inl e
         | Inr (sp, str', s2, f2) \<Rightarrow>
             parse_loop L (tb\<lparr>spins := spins tb @ [sp]\<rparr>) str' s2 f2)
      else
        (case parse_ops L [] [] s1 of
           Inl e \<Rightarrow> Inl e
         | Inr (vec, lbl, str', s2) \<Rightarrow>
             (case add_param tb key lbl vec of
                Inl e \<Rightarrow> Inl e
              | Inr tb' \<Rightarrow> parse_loop L tb' str' s2 False)))"
  by (subst parse_loop.simps) simp

lemma parse_loop_ok:
  "parse_loop L tb str s f = Inr tb' \<Longrightarrow> tables_ok tb \<Longrightarrow> tables_ok tb'"
proof (induction L tb str s f rule: parse_loop.induct)
  case (1 L tb str s f)
  show ?case
  proof (cases "f \<or> next_word s = None")
    case True
    with "1.prems" show ?thesis by (simp add: parse_loop_end)
  next
    case False
    then obtain key s1 where w: "next_word s = Some (key, s1)" and f: "\<not> f" by auto
    from f have ff: "f = False" by simp
    note step = parse_loop_step [OF w, of L tb str]
    note prem = "1.prems"(1) [unfolded ff]
    consider (comment) "first_is CHR ''#'' key"
      | (spin) "\<not> first_is CHR ''#'' key" "first_is CHR ''['' key"
      | (param) "\<not> first_is CHR ''#'' key" "\<not> first_is CHR ''['' key"
      by blast
    then show ?thesis
    proof cases
      case comment
      show ?thesis
      proof (cases s1)
        case Nil
        with prem step comment "1.prems"(2) show ?thesis by simp
      next
        case (Cons l ls)
        with prem step comment have "parse_loop L tb (getline_text l) ls False = Inr tb'"
          by simp
        from "1.IH"(1) [OF f w refl comment Cons this "1.prems"(2)] show ?thesis .
      qed
    next
      case spin
      with prem step obtain sp str' s2 f2 where
        ps: "parse_spin L key str s1 = Inr (sp, str', s2, f2)"
        and r: "parse_loop L (tb\<lparr>spins := spins tb @ [sp]\<rparr>) str' s2 f2 = Inr tb'"
        by (auto split: sum.splits)
      have "tables_ok (tb\<lparr>spins := spins tb @ [sp]\<rparr>)"
        using "1.prems"(2) by (simp add: tables_ok_def)
      from "1.IH"(2) [OF f w refl spin ps refl refl refl r this] show ?thesis .
    next
      case param
      with prem step obtain vec lbl str' s2 tb1 where
        po: "parse_ops L [] [] s1 = Inr (vec, lbl, str', s2)"
        and ap: "add_param tb key lbl vec = Inr tb1"
        and r: "parse_loop L tb1 str' s2 False = Inr tb'"
        by (auto split: sum.splits)
      have "tables_ok tb1"
        using add_param_ok [OF ap "1.prems"(2)] parse_ops_nonempty [OF po] by simp
      from "1.IH"(3) [OF f w refl param po refl refl refl ap r this] show ?thesis .
    qed
  qed
qed

lemma parse_ok: "parse L argv1 s = Inr tb \<Longrightarrow> tables_ok tb"
  unfolding parse_def by (erule parse_loop_ok) (rule tables_ok_empty)

subsection \<open>Entries with the same label\<close>

lemma add_param_lengths:
  "add_param tb key lbl0 vec = Inr tb' \<Longrightarrow>
   iterLengths tb' =
     (let lbl = (if length lbl0 = 0 then key else lbl0) in
      case sm_find (iterLengths tb) lbl of
        None \<Rightarrow> sm_put lbl (length vec) (iterLengths tb)
      | Some n \<Rightarrow> iterLengths tb)"
  by (auto simp: add_param_def Let_def split: option.splits if_splits)

lemma add_param_Inl:
  "add_param tb key lbl0 vec = Inl e \<Longrightarrow>
   \<exists>n. sm_find (iterLengths tb) (if length lbl0 = 0 then key else lbl0) = Some n \<and>
       n \<noteq> length vec \<and>
       e = InconsistentSize (if length lbl0 = 0 then key else lbl0) key vec (length vec) n"
  by (auto simp: add_param_def Let_def split: option.splits if_splits)

lemma add_param_Inr:
  "add_param tb key lbl0 vec = Inr tb' \<Longrightarrow>
   sm_find (iterLengths tb) (if length lbl0 = 0 then key else lbl0) = None \<or>
   sm_find (iterLengths tb) (if length lbl0 = 0 then key else lbl0) = Some (length vec)"
  by (auto simp: add_param_def Let_def split: option.splits if_splits)

lemma entries_read_end:
  "f \<or> next_word s = None \<Longrightarrow> entries_read L str s f = []"
  by (subst entries_read.simps) auto

lemma entries_read_step:
  "next_word s = Some (key, s1) \<Longrightarrow>
   entries_read L str s False =
     (if first_is CHR ''#'' key then
        (case s1 of
           [] \<Rightarrow> []
         | l # ls \<Rightarrow> entries_read L (getline_text l) ls False)
      else if first_is CHR ''['' key then
        (case parse_spin L key str s1 of
           Inl e \<Rightarrow> []
         | Inr (sp, str', s2, f2) \<Rightarrow> entries_read L str' s2 f2)
      else
        (case parse_ops L [] [] s1 of
           Inl e \<Rightarrow> []
         | Inr (vec, lbl, str', s2) \<Rightarrow>
             (key, if length lbl = 0 then key else lbl, vec) # entries_read L str' s2 False))"
  by (subst entries_read.simps) simp

lemma parse_loop_check:
  "check_lengths (iterLengths tb) (entries_read L str s f) = Some (lbl, key, vec, old) \<Longrightarrow>
   parse_loop L tb str s f = Inl (InconsistentSize lbl key vec (length vec) old)"
proof (induction L tb str s f rule: parse_loop.induct)
  case (1 L tb str s f)
  show ?case
  proof (cases "f \<or> next_word s = None")
    case True
    with "1.prems" show ?thesis by (simp add: entries_read_end)
  next
    case False
    then obtain k s1 where w: "next_word s = Some (k, s1)" and f: "\<not> f" by auto
    from f have ff: "f = False" by simp
    note step = parse_loop_step [OF w, of L tb str]
    note estep = entries_read_step [OF w, of L str]
    note prem = "1.prems"(1) [unfolded ff]
    consider (comment) "first_is CHR ''#'' k"
      | (spin) "\<not> first_is CHR ''#'' k" "first_is CHR ''['' k"
      | (param) "\<not> first_is CHR ''#'' k" "\<not> first_is CHR ''['' k"
      by blast
    then show ?thesis
    proof cases
      case comment
      show ?thesis
      proof (cases s1)
        case Nil
        with prem estep comment show ?thesis by simp
      next
        case (Cons l ls)
        with prem estep comment
        have "check_lengths (iterLengths tb) (entries_read L (getline_text l) ls False) =
            Some (lbl, key, vec, old)"
          by simp
        from "1.IH"(1) [OF f w refl comment Cons this] step comment Cons ff
        show ?thesis by simp
      qed
    next
      case spin
      show ?thesis
      proof (cases "parse_spin L k str s1")
        case (Inl e)
        with prem estep spin show ?thesis by simp
      next
        case (Inr r)
        obtain sp str' s2 f2 where r: "r = (sp, str', s2, f2)" by (cases r)
        with prem estep spin Inr
        have "check_lengths (iterLengths (tb\<lparr>spins := spins tb @ [sp]\<rparr>))
            (entries_read L str' s2 f2) = Some (lbl, key, vec, old)"
          by simp
        from "1.IH"(2) [OF f w refl spin(1) spin(2) Inr [unfolded r] refl refl refl this]
          step spin Inr r ff
        show ?thesis by simp
      qed
    next
      case param
      show ?thesis
      proof (cases "parse_ops L [] [] s1")
        case (Inl e)
        with prem estep param show ?thesis by simp
      next
        case (Inr r)
        obtain v l0 str' s2 where r: "r = (v, l0, str', s2)" by (cases r)
        define l where "l = (if length l0 = 0 then k else l0)"
        from prem estep param Inr r
        have chk: "check_lengths (iterLengths tb) ((k, l, v) # entries_read L str' s2 False) =
            Some (lbl, key, vec, old)"
          by (simp add: l_def)
        show ?thesis
        proof (cases "add_param tb k l0 v")
          case (Inl e)
          from add_param_Inl [OF Inl] obtain n where
            n: "sm_find (iterLengths tb) l = Some n" "n \<noteq> length v"
            and e: "e = InconsistentSize l k v (length v) n"
            by (auto simp: l_def)
          from chk n have "lbl = l" "key = k" "vec = v" "old = n" by simp_all
          with step param Inr r Inl e ff show ?thesis by simp
        next
          case (Inr tb1)
          from add_param_lengths [OF Inr] add_param_Inr [OF Inr] chk
          have "check_lengths (iterLengths tb1) (entries_read L str' s2 False) =
              Some (lbl, key, vec, old)"
            by (auto simp: l_def Let_def)
          from "1.IH"(3) [OF f w refl param(1) param(2) \<open>parse_ops L [] [] s1 = Inr r\<close> [unfolded r]
              refl refl refl Inr this]
            step param \<open>parse_ops L [] [] s1 = Inr r\<close> r Inr ff
          show ?thesis by simp
        qed
      qed
    qed
  qed
qed

lemma check_lengths_conflict:
  "list_ex (\<lambda>(key, lbl, vec). \<exists>n. sm_find lens lbl = Some n \<and> n \<noteq> length vec) es \<or> conflict es
   \<Longrightarrow> check_lengths lens es \<noteq> None"
proof (induction es arbitrary: lens)
  case Nil
  then show ?case by simp
next
  case (Cons e es)
  obtain key lbl vec where e: "e = (key, lbl, vec)" by (cases e)
  show ?case
  proof (cases "sm_find lens lbl")
    case None
    have "list_ex (\<lambda>(key', lbl', vec'). \<exists>n. sm_find (sm_put lbl (length vec) lens) lbl' = Some n \<and>
             n \<noteq> length vec') es \<or> conflict es"
    proof -
      from Cons.prems e consider
        (a) key' lbl' vec' n where "(key', lbl', vec') \<in> set es" "sm_find lens lbl' = Some n"
          "n \<noteq> length vec'"
        | (b) key' vec' where "(key', lbl, vec') \<in> set es" "length vec' \<noteq> length vec"
        | (c) "conflict es"
        using None by (auto simp: list_ex_iff)
      then show ?thesis
      proof cases
        case a
        with None have "lbl' \<noteq> lbl" by auto
        with a have "\<exists>n. sm_find (sm_put lbl (length vec) lens) lbl' = Some n \<and> n \<noteq> length vec'"
          by (simp add: sm_find_sm_put)
        with a(1) show ?thesis by (auto simp: list_ex_iff)
      next
        case b
        then have "\<exists>n. sm_find (sm_put lbl (length vec) lens) lbl = Some n \<and> n \<noteq> length vec'"
          by (simp add: sm_find_sm_put)
        with b(1) show ?thesis by (auto simp: list_ex_iff)
      next
        case c
        then show ?thesis by simp
      qed
    qed
    from Cons.IH [OF this] None e show ?thesis by simp
  next
    case (Some n)
    show ?thesis
    proof (cases "n = length vec")
      case True
      have "list_ex (\<lambda>(key', lbl', vec'). \<exists>n. sm_find lens lbl' = Some n \<and> n \<noteq> length vec') es
          \<or> conflict es"
      proof -
        from Cons.prems e Some True consider
          (a) "list_ex (\<lambda>(key', lbl', vec'). \<exists>n. sm_find lens lbl' = Some n \<and> n \<noteq> length vec') es"
          | (b) key' vec' where "(key', lbl, vec') \<in> set es" "length vec' \<noteq> length vec"
          | (c) "conflict es"
          by (auto simp: list_ex_iff)
        then show ?thesis
        proof cases
          case a
          then show ?thesis by simp
        next
          case b
          with Some True have "\<exists>n. sm_find lens lbl = Some n \<and> n \<noteq> length vec'" by simp
          with b(1) show ?thesis by (auto simp: list_ex_iff)
        next
          case c
          then show ?thesis by simp
        qed
      qed
      from Cons.IH [OF this] Some e True show ?thesis by simp
    next
      case False
      with Some e show ?thesis by simp
    qed
  qed
qed

lemma check_lengths_sound:
  "check_lengths lens es = Some (lbl, key, vec, old) \<Longrightarrow>
   (key, lbl, vec) \<in> set es \<and> old \<noteq> length vec"
proof (induction es arbitrary: lens)
  case Nil
  then show ?case by simp
next
  case (Cons e es)
  obtain key' lbl' vec' where e: "e = (key', lbl', vec')" by (cases e)
  from Cons.prems e Cons.IH show ?case
    by (auto split: option.splits if_splits)
qed

lemma check_lengths_old:
  "check_lengths lens es = Some (lbl, key, vec, old) \<Longrightarrow>
   sm_find lens lbl = Some old \<or> (\<exists>key' vec'. (key', lbl, vec') \<in> set es \<and> length vec' = old)"
proof (induction es arbitrary: lens)
  case Nil
  then show ?case by simp
next
  case (Cons e es)
  obtain key' lbl' vec' where e: "e = (key', lbl', vec')" by (cases e)
  show ?case
  proof (cases "sm_find lens lbl'")
    case None
    with Cons.prems e have "check_lengths (sm_put lbl' (length vec') lens) es = Some (lbl, key, vec, old)"
      by simp
    from Cons.IH [OF this] e show ?thesis
      by (auto simp: sm_find_sm_put split: if_splits)
  next
    case (Some n)
    show ?thesis
    proof (cases "n = length vec'")
      case True
      with Cons.prems e Some have "check_lengths lens es = Some (lbl, key, vec, old)"
        by simp
      from Cons.IH [OF this] show ?thesis by auto
    next
      case False
      with Cons.prems e Some show ?thesis by simp
    qed
  qed
qed

lemmas parse_eval = parse_def parse_loop.simps parse_ops.simps std_reads range_evals
  read_vals.simps add_param_def empty_tables_def sm_find_def sm_get_def Let_def first_is_def

subsection \<open>The custom spins of a job\<close>

lemma custom_spin_log:
  "custom_spin E (m, w) s = (fst (custom_spin E (m, []) s), w @ snd (custom_spin E (m, []) s))"
  by (simp add: custom_spin_def split: sum.splits)

lemma foldl_custom_spin_log:
  "foldl (custom_spin E) (m, w) ss =
     (fst (foldl (custom_spin E) (m, []) ss), w @ snd (foldl (custom_spin E) (m, []) ss))"
proof (induction ss arbitrary: m w)
  case Nil
  show ?case by simp
next
  case (Cons s ss)
  obtain m1 w1 where c: "custom_spin E (m, []) s = (m1, w1)" by (cases "custom_spin E (m, []) s")
  then have c': "custom_spin E (m, w) s = (m1, w @ w1)"
    using custom_spin_log [of E m w s] by simp
  show ?case
    using Cons.IH [of m1 "w @ w1"] Cons.IH [of m1 w1] c c' by simp
qed

lemma custom_spins_append:
  "custom_spins E msd (xs @ ys) =
     (fst (custom_spins E (fst (custom_spins E msd xs)) ys),
      snd (custom_spins E msd xs) @ snd (custom_spins E (fst (custom_spins E msd xs)) ys))"
proof -
  obtain m w where a: "foldl (custom_spin E) (msd, []) xs = (m, w)"
    by (cases "foldl (custom_spin E) (msd, []) xs")
  show ?thesis
    using foldl_custom_spin_log [of E m w ys] a by (simp add: custom_spins_def)
qed

lemma custom_spins_Cons_skip:
  assumes "getSpin E msd (spin_x s) (spin_y s) (spin_z s) = Inl what"
  shows "custom_spins E msd (s # ss) =
     (fst (custom_spins E msd ss),
      CouldNotSetSpin (spin_x s) (spin_y s) (spin_z s) (spin_norm s) what # snd (custom_spins E msd ss))"
proof -
  have "custom_spin E (msd, []) s =
      (msd, [CouldNotSetSpin (spin_x s) (spin_y s) (spin_z s) (spin_norm s) what])"
    using assms by (simp add: custom_spin_def)
  then show ?thesis
    using foldl_custom_spin_log [of E msd
        "[CouldNotSetSpin (spin_x s) (spin_y s) (spin_z s) (spin_norm s) what]" ss]
    by (simp add: custom_spins_def)
qed

lemma algorithm_alt:
  "algorithm E info =
     (case engine_before_spins E info of
        Inl code \<Rightarrow> Inl code
      | Inr msd \<Rightarrow>
          (let (msd, wlog) = custom_spins E msd (info_spins info);
                 msd = (if initMode info = RANDOMIZE then randomize E msd else msd);
                 msd = metropolis E msd (t_eq info) 0;
                 msd = metropolis E msd (simCount info) (freq info)
             in Inr (info\<lparr>results := map (\<lambda>n. (n, observe E msd n)) result_names,
                          atoms := snapshot E msd\<rparr>, wlog)))"
  by (simp add: algorithm_def engine_before_spins_def Let_def split: sum.splits)

lemma engine_before_spins_spins [simp]:
  "engine_before_spins E (info\<lparr>info_spins := ss\<rparr>) = engine_before_spins E info"
  by (simp add: engine_before_spins_def Let_def cong: sum.case_cong)

subsection \<open>Odometers\<close>

lemma length_odometer [simp]: "length (odometer ns j) = length ns"
  by (induction ns arbitrary: j) auto







lemma prod_list_pos: "\<forall>n\<in>set ns. 1 \<le> n \<Longrightarrow> 1 \<le> prod_list (ns :: nat list)"
  by (induction ns) (auto simp: Suc_le_eq)

lemma odometer_step_odometer:
  "\<forall>n\<in>set ns. 1 \<le> n \<Longrightarrow> j < prod_list ns \<Longrightarrow>
   odometer_step (odometer ns j) ns = (odometer ns ((j + 1) mod prod_list ns), j + 1 < prod_list ns)"
proof (induction ns arbitrary: j)
  case Nil
  then show ?case by simp
next
  case (Cons n ns)
  let ?M = "prod_list ns"
  from Cons.prems have n: "0 < n" by simp
  from Cons.prems have M: "1 \<le> ?M" using prod_list_pos [of ns] by simp
  from Cons.prems have q: "j div n < ?M"
    using n by (simp add: less_mult_imp_div_less mult.commute)
  show ?case
  proof (cases "j mod n + 1 \<ge> n")
    case True
    then have last: "j mod n = n - 1"
      using n mod_less_divisor [of n j] by linarith
    have j: "j = n * (j div n) + (n - 1)"
      using last mult_div_mod_eq [of n j] by simp
    then have j1: "j + 1 = n * (j div n + 1)"
      using n by (simp add: algebra_simps)
    have a: "(j + 1) mod (n * ?M) = n * ((j div n + 1) mod ?M)"
      unfolding j1 by (simp add: mult_mod_right)
    have b: "(j + 1 < n * ?M) = (j div n + 1 < ?M)"
      unfolding j1 using n by (rule nat_mult_less_cancel1)
    have "odometer_step (odometer ns (j div n)) ns =
        (odometer ns ((j div n + 1) mod ?M), j div n + 1 < ?M)"
      using Cons.IH [of "j div n"] Cons.prems q by simp
    then show ?thesis
      using True a b n by simp
  next
    case False
    then have lt: "j mod n + 1 < n" by simp
    have m: "(j + 1) mod n = j mod n + 1"
      using lt by (metis Suc_eq_plus1 mod_Suc nat_neq_iff)
    have d: "(j + 1) div n = j div n"
      using lt by (metis Suc_eq_plus1 div_Suc m mod_Suc nat_neq_iff Zero_not_Suc add_is_0)
    have e: "n * (j div n) + j mod n = j" by simp
    have "j + 1 < n * (j div n) + n"
      using lt e by linarith
    also have "\<dots> = n * (j div n + 1)" by simp
    also have "\<dots> \<le> n * ?M" using q by (intro mult_le_mono2) simp
    finally have s: "j + 1 < n * ?M" .
    then show ?thesis
      using False m d by simp
  qed
qed

subsection \<open>The enumerator\<close>

lemma advance_odometer:
  "distinct ls \<Longrightarrow> advance ls its lens = (its', hn) \<Longrightarrow>
   odometer_step (map (sm_get 0 its) ls) (map (sm_get 0 lens) ls) = (map (sm_get 0 its') ls, hn) \<and>
   (\<forall>l. l \<notin> set ls \<longrightarrow> sm_get 0 its' l = sm_get 0 its l) \<and>
   fst ` set its' \<subseteq> fst ` set its \<union> set ls \<and> fst ` set its \<subseteq> fst ` set its'"
proof (induction ls arbitrary: its)
  case Nil
  then show ?case by auto
next
  case (Cons l ls)
  let ?v = "sm_get 0 its l + 1"
  from Cons.prems have d: "distinct ls" and nl: "l \<notin> set ls" by auto
  show ?case
  proof (cases "?v \<ge> sm_get 0 lens l")
    case True
    let ?its1 = "sm_put l 0 (sm_put l ?v its)"
    from Cons.prems(2) True have a: "advance ls ?its1 lens = (its', hn)"
      by (simp add: Let_def)
    note ih = Cons.IH [OF d a]
    have same: "map (sm_get 0 ?its1) ls = map (sm_get 0 its) ls"
      using nl by (auto simp: sm_get_sm_put)
    from ih have os: "odometer_step (map (sm_get 0 its) ls) (map (sm_get 0 lens) ls) =
        (map (sm_get 0 its') ls, hn)"
      unfolding same by blast
    from ih have other: "\<forall>k. k \<notin> set ls \<longrightarrow> sm_get 0 its' k = sm_get 0 ?its1 k"
      by blast
    with nl have l0: "sm_get 0 its' l = 0"
      by (simp add: sm_get_sm_put)
    have keys: "fst ` set ?its1 = insert l (fst ` set its)"
      by (simp add: keys_sm_put)
    have 1: "odometer_step (map (sm_get 0 its) (l # ls)) (map (sm_get 0 lens) (l # ls)) =
        (map (sm_get 0 its') (l # ls), hn)"
      using os l0 True by simp
    have 2: "\<forall>k. k \<notin> set (l # ls) \<longrightarrow> sm_get 0 its' k = sm_get 0 its k"
      using other by (simp add: sm_get_sm_put)
    have 3: "fst ` set its' \<subseteq> fst ` set its \<union> set (l # ls)"
      using ih keys by auto
    have 4: "fst ` set its \<subseteq> fst ` set its'"
      using ih keys by auto
    from 1 2 3 4 show ?thesis by blast
  next
    case False
    with Cons.prems(2) have e: "its' = sm_put l ?v its" "hn = True"
      by (simp_all add: Let_def)
    have "map (sm_get 0 its') ls = map (sm_get 0 its) ls"
      using nl e by (auto simp: sm_get_sm_put)
    with e False show ?thesis
      by (auto simp: sm_get_sm_put keys_sm_put)
  qed
qed

lemma at0_constant:
  "has_constants tb \<Longrightarrow> n \<in> set const_names \<Longrightarrow> \<exists>v. at0 tb n = Inr v"
  by (auto simp: has_constants_def list_all_iff at0_def split: option.splits list.splits)

lemma set_constants_ok:
  assumes "has_constants tb"
  shows "\<exists>i. set_constants A tb preInfo = Inr i"
proof -
  have "\<forall>n\<in>set const_names. \<exists>v. at0 tb n = Inr v"
    using assms by (simp add: at0_constant)
  then obtain w h d ml mr t b fr br te sc fq where
    "at0 tb ''width'' = Inr w" "at0 tb ''height'' = Inr h" "at0 tb ''depth'' = Inr d"
    "at0 tb ''molPosL'' = Inr ml" "at0 tb ''molPosR'' = Inr mr" "at0 tb ''topL'' = Inr t"
    "at0 tb ''bottomL'' = Inr b" "at0 tb ''frontR'' = Inr fr" "at0 tb ''backR'' = Inr br"
    "at0 tb ''t_eq'' = Inr te" "at0 tb ''simCount'' = Inr sc" "at0 tb ''freq'' = Inr fq"
    unfolding const_names_def by (simp del: not_None_eq) blast
  then show ?thesis
    by (simp add: set_constants_def sum_bind_def)
qed

lemma set_parameters_ok:
  "\<forall>(l, i)\<in>set its. sm_find (labelMap tb) l \<noteq> None \<Longrightarrow>
   \<exists>i'. set_parameters tb its preInfo = Inr i'"
proof (induction its arbitrary: preInfo)
  case Nil
  show ?case by simp
next
  case (Cons a its)
  obtain l i where a: "a = (l, i)" by (cases a)
  with Cons.prems obtain ps where "sm_find (labelMap tb) l = Some ps" by auto
  with a Cons show ?case by simp
qed


lemma sm_get_mem: "l \<in> fst ` set m \<Longrightarrow> (l, sm_get d m l) \<in> set m"
  by (auto simp: sm_get_def dest: map_of_SomeD weak_map_of_SomeI split: option.splits)

lemma lengths_pos: "tables_ok tb \<Longrightarrow> \<forall>n\<in>set (lengths tb). 1 \<le> n"
proof
  fix n assume ok: "tables_ok tb" and "n \<in> set (lengths tb)"
  then obtain l where l: "l \<in> set (labelNames tb)" and n: "n = sm_get 0 (iterLengths tb) l"
    by (auto simp: lengths_def)
  from ok l have "l \<in> fst ` set (iterLengths tb)" by (simp add: tables_ok_def)
  from sm_get_mem [OF this, of 0] ok n show "1 \<le> n"
    by (auto simp: tables_ok_def)
qed

lemma odometer_zero: "odometer ns 0 = replicate (length ns) 0"
  by (induction ns) auto

lemma cursors_parsed: "tables_ok tb \<Longrightarrow> cursors tb = odometer (lengths tb) 0"
proof -
  assume ok: "tables_ok tb"
  have "\<forall>l\<in>set (labelNames tb). sm_get 0 (iters tb) l = 0"
  proof
    fix l assume "l \<in> set (labelNames tb)"
    with ok have "l \<in> fst ` set (iters tb)" by (simp add: tables_ok_def)
    from sm_get_mem [OF this, of 0] ok show "sm_get 0 (iters tb) l = 0"
      by (auto simp: tables_ok_def)
  qed
  then have "cursors tb = replicate (length (labelNames tb)) 0"
    by (simp add: cursors_def map_replicate_const [symmetric] cong: map_cong)
  then show ?thesis by (simp add: odometer_zero lengths_def)
qed

lemma nextIter_step:
  assumes ok: "tables_ok tb" and hc: "has_constants tb" and inv: "enum_inv tb tbj"
    and cur: "cursors tbj = odometer (lengths tb) j" and j: "j < prod_list (lengths tb)"
  shows "\<exists>info tbj'. nextIter A tbj preInfo = Inr (info, tbj', j + 1 < prod_list (lengths tb)) \<and>
     enum_inv tb tbj' \<and> cursors tbj' = odometer (lengths tb) ((j + 1) mod prod_list (lengths tb))"
proof -
  from inv obtain its where tbj: "tbj = tb\<lparr>iters := its\<rparr>"
    and keys: "fst ` set its = set (labelNames tb)"
    by (auto simp: enum_inv_def)
  from hc have "has_constants tbj" by (simp add: has_constants_def tbj)
  from set_constants_ok [OF this] obtain pre1 where c: "set_constants A tbj preInfo = Inr pre1"
    by blast
  have "fst ` set (labelMap tb) = set (labelNames tb)"
    using ok by (simp add: tables_ok_def)
  with keys have "\<forall>x\<in>set its. sm_find (labelMap tb) (fst x) \<noteq> None"
    by (simp add: sm_find_None_iff del: not_None_eq) blast
  then have "\<forall>(l, i)\<in>set (iters tbj). sm_find (labelMap tbj) l \<noteq> None"
    by (simp add: tbj case_prod_beta del: not_None_eq)
  from set_parameters_ok [OF this] obtain pre2 where
    sp: "set_parameters tbj (iters tbj) pre1 = Inr pre2"
    by blast
  obtain its' hn where a: "advance (labelNames tb) its (iterLengths tb) = (its', hn)"
    by (cases "advance (labelNames tb) its (iterLengths tb)")
  from ok have d: "distinct (labelNames tb)" by (simp add: tables_ok_def)
  note ao = advance_odometer [OF d a]
  have "odometer_step (cursors tbj) (lengths tb) = (map (sm_get 0 its') (labelNames tb), hn)"
    using ao by (simp add: cursors_def lengths_def tbj)
  with odometer_step_odometer [OF lengths_pos [OF ok] j] cur
  have hn: "hn = (j + 1 < prod_list (lengths tb))"
    and cs: "map (sm_get 0 its') (labelNames tb) =
      odometer (lengths tb) ((j + 1) mod prod_list (lengths tb))"
    by simp_all
  from ao have "fst ` set its' \<subseteq> fst ` set its \<union> set (labelNames tb)"
    and "fst ` set its \<subseteq> fst ` set its'"
    by simp_all
  with keys have k': "fst ` set its' = set (labelNames tb)"
    by (simp add: subset_antisym)
  let ?t = "tb\<lparr>iters := its'\<rparr>"
  have n: "nextIter A tbj preInfo = Inr (pre2, ?t, hn)"
    using c sp a by (simp add: nextIter_def tbj)
  have i': "enum_inv tb ?t"
    using k' by (auto simp: enum_inv_def)
  have "cursors ?t = odometer (lengths tb) ((j + 1) mod prod_list (lengths tb))"
    using cs by (simp add: cursors_def)
  with n i' hn show ?thesis by blast
qed

lemma enumerate_more:
  "nextIter A tb preInfo = Inr (info, tb', hn) \<Longrightarrow>
   enumerate A acc tb preInfo True = enumerate A (acc @ [info]) tb' info hn"
  by (subst enumerate.simps) simp

lemma enumerate_done: "enumerate A acc tb preInfo False = Some (Inr acc)"
  by (subst enumerate.simps) simp

lemma enumerate_unroll:
  assumes ok: "tables_ok tb" and hc: "has_constants tb"
  shows "enum_inv tb tbj \<Longrightarrow> cursors tbj = odometer (lengths tb) j \<Longrightarrow>
     j + k = prod_list (lengths tb) \<Longrightarrow> 0 < k \<Longrightarrow>
     \<exists>infos tbs. enumerate A acc tbj preInfo True = Some (Inr (acc @ infos)) \<and>
       length infos = k \<and> length tbs = k + 1 \<and> tbs ! 0 = tbj \<and>
       (\<forall>i<k. cursors (tbs ! i) = odometer (lengths tb) (j + i) \<and>
              nextIter A (tbs ! i) (if i = 0 then preInfo else infos ! (i - 1)) =
                Inr (infos ! i, tbs ! (i + 1), j + i + 1 < prod_list (lengths tb)))"
proof (induction k arbitrary: j tbj acc preInfo)
  case 0
  then show ?case by simp
next
  case (Suc k)
  let ?N = "prod_list (lengths tb)"
  from Suc.prems have j: "j < ?N" by simp
  from nextIter_step [OF ok hc Suc.prems(1) Suc.prems(2) j, of A preInfo]
  obtain info tbj' where n: "nextIter A tbj preInfo = Inr (info, tbj', j + 1 < ?N)"
    and inv': "enum_inv tb tbj'"
    and cur': "cursors tbj' = odometer (lengths tb) ((j + 1) mod ?N)"
    by blast
  note e = enumerate_more [OF n, of acc]
  show ?case
  proof (cases k)
    case 0
    with Suc.prems have last: "\<not> j + 1 < ?N" by simp
    have "enumerate A acc tbj preInfo True = Some (Inr (acc @ [info]))"
      using e last by (simp add: enumerate_done)
    moreover have "\<forall>i<Suc k. cursors ([tbj, tbj'] ! i) = odometer (lengths tb) (j + i) \<and>
              nextIter A ([tbj, tbj'] ! i) (if i = 0 then preInfo else [info] ! (i - 1)) =
                Inr ([info] ! i, [tbj, tbj'] ! (i + 1), j + i + 1 < ?N)"
      using 0 n Suc.prems(2) by simp
    ultimately show ?thesis
      using 0 by (intro exI [of _ "[info]"] exI [of _ "[tbj, tbj']"]) simp
  next
    case (Suc k')
    with Suc.prems have more: "j + 1 < ?N" by simp
    then have cur1: "cursors tbj' = odometer (lengths tb) (j + 1)"
      using cur' by simp
    have jk: "(j + 1) + k = ?N" using Suc.prems by simp
    have kp: "0 < k" using Suc by simp
    from Suc.IH [OF inv' cur1 jk kp, of "acc @ [info]" info]
    obtain infos tbs where
      en: "enumerate A (acc @ [info]) tbj' info True = Some (Inr ((acc @ [info]) @ infos))"
      and li: "length infos = k" and lt: "length tbs = k + 1" and t0: "tbs ! 0 = tbj'"
      and st: "\<forall>i<k. cursors (tbs ! i) = odometer (lengths tb) (j + 1 + i) \<and>
              nextIter A (tbs ! i) (if i = 0 then info else infos ! (i - 1)) =
                Inr (infos ! i, tbs ! (i + 1), j + 1 + i + 1 < ?N)"
      by blast
    have 1: "enumerate A acc tbj preInfo True = Some (Inr (acc @ info # infos))"
      using e more en by simp
    have 2: "\<forall>i<Suc k. cursors ((tbj # tbs) ! i) = odometer (lengths tb) (j + i) \<and>
              nextIter A ((tbj # tbs) ! i) (if i = 0 then preInfo else (info # infos) ! (i - 1)) =
                Inr ((info # infos) ! i, (tbj # tbs) ! (i + 1), j + i + 1 < ?N)"
    proof (intro allI impI)
      fix i assume i: "i < Suc k"
      show "cursors ((tbj # tbs) ! i) = odometer (lengths tb) (j + i) \<and>
              nextIter A ((tbj # tbs) ! i) (if i = 0 then preInfo else (info # infos) ! (i - 1)) =
                Inr ((info # infos) ! i, (tbj # tbs) ! (i + 1), j + i + 1 < ?N)"
      proof (cases i)
        case 0
        with n t0 more Suc.prems(2) show ?thesis by simp
      next
        case (Suc i')
        with i have "i' < k" by simp
        with st have c: "cursors (tbs ! i') = odometer (lengths tb) (j + 1 + i')"
          and nx: "nextIter A (tbs ! i') (if i' = 0 then info else infos ! (i' - 1)) =
                Inr (infos ! i', tbs ! (i' + 1), j + 1 + i' + 1 < ?N)"
          by simp_all
        have prev: "(if i' = 0 then info else infos ! (i' - 1)) = (info # infos) ! i'"
          by (cases i') simp_all
        from nx have nx': "nextIter A (tbs ! i') ((info # infos) ! i') =
                Inr (infos ! i', tbs ! (i' + 1), j + 1 + i' + 1 < ?N)"
          unfolding prev .
        from c nx' Suc show ?thesis by (simp add: add.commute add.left_commute)
      qed
    qed
    from 1 2 li lt show ?thesis
      by (intro exI [of _ "info # infos"] exI [of _ "tbj # tbs"]) simp
  qed
qed

lemma enum_inv_refl: "tables_ok tb \<Longrightarrow> enum_inv tb tb"
  by (auto simp: enum_inv_def tables_ok_def intro!: exI [of _ "iters tb"])

lemma toy_parse: "parse std_lib ''in.txt'' toy_file = Inr toy_tables"
  by (simp add: toy_file_def toy_tables_def parse_eval)

lemma toy_constants: "has_constants toy_tables"
  by (simp add: has_constants_def const_names_def toy_tables_def sm_find_def)

lemma toy_lengths: "lengths toy_tables = [1, 1, 1, 1, 1, 1, 1, 1, 1, 1, 1, 1, 3, 2]"
  by (simp add: lengths_def toy_tables_def sm_get_def)

lemma toy_ok: "tables_ok toy_tables"
  by (rule parse_ok [OF toy_parse])

lemma toy_enumerate:
  "\<exists>infos. enumerate A [] toy_tables preInfo True = Some (Inr infos) \<and> length infos = 6"
proof -
  have c: "cursors toy_tables = odometer (lengths toy_tables) 0"
    by (rule cursors_parsed [OF toy_ok])
  have "0 + 6 = prod_list (lengths toy_tables)" by (simp add: toy_lengths)
  from enumerate_unroll [OF toy_ok toy_constants enum_inv_refl [OF toy_ok] c this, of A "[]" preInfo]
  show ?thesis by auto
qed

lemma toy_first:
  "\<exists>info tb. nextIter A toy_tables preInfo = Inr (info, tb, True)"
proof -
  have c: "cursors toy_tables = odometer (lengths toy_tables) 0"
    by (rule cursors_parsed [OF toy_ok])
  have "0 < prod_list (lengths toy_tables)" by (simp add: toy_lengths)
  from nextIter_step [OF toy_ok toy_constants enum_inv_refl [OF toy_ok] c this, of A preInfo]
  show ?thesis by (auto simp: toy_lengths)
qed

lemma toy_algorithm: "\<exists>r. algorithm toy_engine info = Inr r"
  by (simp add: algorithm_def toy_engine_def Let_def split: prod.splits)

section \<open>Facts about the pool and the main loop\<close>

subsection \<open>Waiting for a slot\<close>

lemma running_le_length: "running tp \<le> length tp"
  by (induction tp rule: running.induct) auto

lemma await_slot_result:
  "i < length tp \<Longrightarrow> await_slot tp i c = (res, i', c') \<Longrightarrow>
   i' < length tp \<and> c \<le> c' \<and>
   ((res = None \<and> tp ! i' = Invalid) \<or> (\<exists>r t. res = Some r \<and> tp ! i' = Running r t \<and> t \<le> c'))"
proof (induction tp i c rule: await_slot.induct)
  case (1 tp i c)
  show ?case
  proof (cases "tp ! i")
    case Invalid
    with "1.prems" show ?thesis by (simp add: await_slot.simps [of tp i c])
  next
    case (Running r t)
    show ?thesis
    proof (cases "t \<le> c")
      case True
      with "1.prems" Running show ?thesis by (simp add: await_slot.simps [of tp i c])
    next
      case False
      with "1.prems" Running
      have a: "await_slot tp ((i + 1) mod length tp) (c + 1) = (res, i', c')"
        by (simp add: await_slot.simps [of tp i c])
      have "(i + 1) mod length tp < length tp" using "1.prems"(1) by (intro mod_less_divisor) auto
      from "1.IH" [OF "1.prems"(1) Running False this a] show ?thesis by auto
    qed
  qed
qed

lemma running_update_Invalid:
  "i < length tp \<Longrightarrow> tp ! i = Invalid \<Longrightarrow> running (tp[i := Running r t]) = Suc (running tp)"
proof (induction tp arbitrary: i rule: running.induct)
  case 1
  then show ?case by simp
next
  case (2 fs)
  then show ?case by (cases i) auto
next
  case (3 r' t' fs)
  then show ?case by (cases i) auto
qed

lemma running_update_Running:
  "i < length tp \<Longrightarrow> tp ! i = Running r0 t0 \<Longrightarrow> running (tp[i := Running r t]) = running tp"
proof (induction tp arbitrary: i rule: running.induct)
  case 1
  then show ?case by simp
next
  case (2 fs)
  then show ?case by (cases i) auto
next
  case (3 r' t' fs)
  then show ?case by (cases i) auto
qed

lemma pending_fill:
  "i < length tp \<Longrightarrow> tp ! i = Invalid \<Longrightarrow>
   mset (pending (tp[i := Running r t])) = add_mset r (mset (pending tp))"
proof (induction tp arbitrary: i rule: pending.induct)
  case 1
  then show ?case by simp
next
  case (2 fs)
  then show ?case by (cases i) auto
next
  case (3 r' t' fs)
  then show ?case by (cases i) auto
qed

lemma pending_swap:
  "i < length tp \<Longrightarrow> tp ! i = Running r0 t0 \<Longrightarrow>
   add_mset r0 (mset (pending (tp[i := Running r t]))) = add_mset r (mset (pending tp))"
proof (induction tp arbitrary: i rule: pending.induct)
  case 1
  then show ?case by simp
next
  case (2 fs)
  then show ?case by (cases i) auto
next
  case (3 r' t' fs)
  then show ?case by (cases i) auto
qed

lemma pending_collect:
  "i < length tp \<Longrightarrow> tp ! i = Running r t \<Longrightarrow>
   mset (pending tp) = add_mset r (mset (pending (tp[i := Invalid])))"
proof (induction tp arbitrary: i rule: pending.induct)
  case 1
  then show ?case by simp
next
  case (2 fs)
  then show ?case by (cases i) auto
next
  case (3 r' t' fs)
  then show ?case by (cases i) auto
qed

lemma pending_none: "(\<forall>k<length tp. tp ! k = Invalid) \<Longrightarrow> pending tp = []"
proof (induction tp rule: pending.induct)
  case 1
  then show ?case by simp
next
  case (2 fs)
  then have "\<forall>k<length fs. fs ! k = Invalid" by fastforce
  with 2 show ?case by simp
next
  case (3 r' t' fs)
  then have "(Running r' t' # fs) ! 0 = Invalid" by blast
  then show ?case by simp
qed

lemma pending_replicate: "pending (replicate n Invalid) = []"
  by (induction n) simp_all

lemma all_Invalid: "(\<forall>k<length tp. tp ! k = Invalid) \<Longrightarrow> tp = replicate (length tp) Invalid"
  by (simp add: list_eq_iff_nth_eq)

lemma submit_result:
  assumes "nextIndex st < length (threadPool st)" "submit W st r = (res, st')"
  shows "length (threadPool st') = length (threadPool st) \<and>
     nextIndex st' < length (threadPool st) \<and>
     threadPool st' = (threadPool st)[nextIndex st' := Running r (clock st' + dur W (launched st))] \<and>
     s_journal st' = s_journal st \<and> s_tables st' = s_tables st \<and> s_preInfo st' = s_preInfo st \<and>
     s_hasNextIter st' = s_hasNextIter st \<and>
     ((res = None \<and> threadPool st ! nextIndex st' = Invalid \<and>
         running (threadPool st') = Suc (running (threadPool st))) \<or>
      (\<exists>r0 t0. res = Some r0 \<and> threadPool st ! nextIndex st' = Running r0 t0 \<and> t0 \<le> clock st' \<and>
         running (threadPool st') = running (threadPool st)))"
proof -
  obtain po i c where a: "await_slot (threadPool st) (nextIndex st) (clock st) = (po, i, c)"
    by (cases "await_slot (threadPool st) (nextIndex st) (clock st)")
  with assms(2) have res: "res = po"
    and st': "st' = st\<lparr>threadPool := (threadPool st)[i := Running r (c + dur W (launched st))],
              nextIndex := i, clock := c, launched := launched st + 1\<rparr>"
    by (simp_all add: submit_def)
  from await_slot_result [OF assms(1) a]
  have i: "i < length (threadPool st)"
    and cs: "(po = None \<and> threadPool st ! i = Invalid) \<or>
       (\<exists>r0 t0. po = Some r0 \<and> threadPool st ! i = Running r0 t0 \<and> t0 \<le> c)"
    by auto
  from cs show ?thesis
  proof
    assume "po = None \<and> threadPool st ! i = Invalid"
    with i res st' running_update_Invalid [of i "threadPool st" r "c + dur W (launched st)"]
    show ?thesis by simp
  next
    assume "\<exists>r0 t0. po = Some r0 \<and> threadPool st ! i = Running r0 t0 \<and> t0 \<le> c"
    then obtain r0 t0 where "po = Some r0" "threadPool st ! i = Running r0 t0" "t0 \<le> c" by blast
    with i res st' running_update_Running [of i "threadPool st" r0 t0 r "c + dur W (launched st)"]
    show ?thesis by simp
  qed
qed

lemma submit_pending:
  assumes "nextIndex st < length (threadPool st)" "submit W st r = (res, st')"
  shows "mset (taken res) + mset (pending (threadPool st')) = add_mset r (mset (pending (threadPool st)))"
proof -
  from submit_result [OF assms]
  have tp: "threadPool st' = (threadPool st)[nextIndex st' := Running r (clock st' + dur W (launched st))]"
    and i: "nextIndex st' < length (threadPool st)"
    and cs: "(res = None \<and> threadPool st ! nextIndex st' = Invalid) \<or>
      (\<exists>r0 t0. res = Some r0 \<and> threadPool st ! nextIndex st' = Running r0 t0)"
    by auto
  from cs show ?thesis
  proof
    assume "res = None \<and> threadPool st ! nextIndex st' = Invalid"
    with pending_fill [OF i, of r "clock st' + dur W (launched st)"] tp show ?thesis by simp
  next
    assume "\<exists>r0 t0. res = Some r0 \<and> threadPool st ! nextIndex st' = Running r0 t0"
    then obtain r0 t0 where "res = Some r0" "threadPool st ! nextIndex st' = Running r0 t0" by blast
    with pending_swap [OF i, of r0 t0 r "clock st' + dur W (launched st)"] tp show ?thesis by simp
  qed
qed

lemma toy_submit:
  "submit (world_of (toy_env 2))
     ((toy_state 2)\<lparr>threadPool := [Running (toy_result 1) 5, Running (toy_result 2) 1]\<rparr>)
     (toy_result 3) =
   (Some (toy_result 2),
    (toy_state 2)\<lparr>threadPool := [Running (toy_result 1) 5, Running (toy_result 3) 3],
      nextIndex := 1, clock := 1, launched := 1\<rparr>)"
  by (simp add: submit_def toy_state_def state0_def toy_env_def await_slot.simps)

subsection \<open>The final loop over the pool\<close>

lemma lap_inv_reset:
  assumes "i < length tp" "lap_inv tp i openThreads"
  shows "(if i = 0 then 0 else openThreads) \<le> i \<and>
         ((if i = 0 then 0 else openThreads) = i \<longrightarrow> (\<forall>k<i. tp ! k = Invalid))"
  using assms by (cases "i = 0") (simp_all add: lap_inv_def)

lemma lap_inv_wrap:
  assumes "i < length tp" "n \<le> Suc i" "n = Suc i \<longrightarrow> (\<forall>k<Suc i. tp ! k = Invalid)"
  shows "lap_inv tp ((i + 1) mod length tp) n"
proof (cases "Suc i < length tp")
  case True
  then have m: "(i + 1) mod length tp = Suc i" by simp
  show ?thesis unfolding m using assms(2,3) by (simp add: lap_inv_def)
next
  case False
  with assms(1) have e: "Suc i = length tp" by simp
  then have m: "(i + 1) mod length tp = 0" by simp
  show ?thesis unfolding m using assms(2,3) by (simp add: lap_inv_def e)
qed

lemma lap_inv_next:
  assumes "i < length tp" "lap_inv tp i openThreads"
    and "tp' = tp \<or> tp' = tp[i := Invalid]" "tp' ! i = Invalid"
  shows "lap_inv tp' ((i + 1) mod length tp') ((if i = 0 then 0 else openThreads) + 1)"
proof -
  have nth: "tp' ! k = Invalid" if "k < length tp" "tp ! k = Invalid" for k
  proof (cases "k = i")
    case True
    with assms(4) show ?thesis by simp
  next
    case False
    with assms(3) that show ?thesis by auto
  qed
  have len: "length tp' = length tp" using assms(3) by auto
  note r = lap_inv_reset [OF assms(1,2)]
  show ?thesis
  proof (rule lap_inv_wrap)
    show "i < length tp'" using assms(1) len by simp
    show "(if i = 0 then 0 else openThreads) + 1 \<le> Suc i" using r by simp
    show "(if i = 0 then 0 else openThreads) + 1 = Suc i \<longrightarrow> (\<forall>k<Suc i. tp' ! k = Invalid)"
    proof (intro impI allI)
      fix k
      assume a: "(if i = 0 then 0 else openThreads) + 1 = Suc i" and k: "k < Suc i"
      from a r have old: "\<forall>k<i. tp ! k = Invalid" by simp
      show "tp' ! k = Invalid"
      proof (cases "k = i")
        case True
        with assms(4) show ?thesis by simp
      next
        case False
        with k have "k < i" by simp
        with old assms(1) show ?thesis by (intro nth) auto
      qed
    qed
  qed
qed

lemma lap_inv_skip:
  assumes "i < length tp" "lap_inv tp i openThreads" "tp ! i \<noteq> Invalid"
  shows "lap_inv tp ((i + 1) mod length tp) (if i = 0 then 0 else openThreads)"
proof -
  note r = lap_inv_reset [OF assms(1,2)]
  show ?thesis
  proof (rule lap_inv_wrap)
    show "i < length tp" by fact
    show "(if i = 0 then 0 else openThreads) \<le> Suc i" using r by simp
    show "(if i = 0 then 0 else openThreads) = Suc i \<longrightarrow> (\<forall>k<Suc i. tp ! k = Invalid)"
      using r by auto
  qed
qed

lemma lap_inv_exit:
  assumes "i < length tp" "lap_inv tp i openThreads" "\<not> openThreads < length tp"
  shows "i = 0 \<and> tp = replicate (length tp) Invalid"
proof -
  from assms have i: "i = 0" by (cases "i = 0") (simp_all add: lap_inv_def)
  with assms have "\<forall>k<length tp. tp ! k = Invalid" by (simp add: lap_inv_def)
  with i show ?thesis by (simp add: all_Invalid)
qed

lemma lap_inv_start: "i < length tp \<Longrightarrow> lap_inv tp i 0"
  by (auto simp: lap_inv_def)

lemma drain_result:
  "i < length tp \<Longrightarrow> lap_inv tp i openThreads \<Longrightarrow>
   \<exists>rs c'. drain rcd tp i openThreads c j = (replicate (length tp) Invalid, 0, c', foldl rcd j rs) \<and>
     mset rs = mset (pending tp) \<and> c \<le> c'"
proof (induction rcd tp i openThreads c j rule: drain.induct)
  case (1 rcd tp i openThreads c j)
  let ?o = "if i = 0 then 0 else openThreads"
  let ?i = "(i + 1) mod length tp"
  have i': "?i < length tp" using "1.prems"(1) by (intro mod_less_divisor) auto
  show ?case
  proof (cases "openThreads < length tp")
    case False
    from lap_inv_exit [OF "1.prems" False]
    have e: "i = 0" "tp = replicate (length tp) Invalid" by simp_all
    then have "\<forall>k<length tp. tp ! k = Invalid" by (metis nth_replicate)
    then have p: "pending tp = []" by (rule pending_none)
    have "drain rcd tp i openThreads c j = (tp, i, c, j)"
      using False by (simp add: drain.simps [of rcd tp i openThreads c j])
    with e p have "drain rcd tp i openThreads c j = (replicate (length tp) Invalid, 0, c, foldl rcd j []) \<and>
        mset [] = mset (pending tp) \<and> c \<le> c"
      by simp
    then show ?thesis by blast
  next
    case True
    with "1.prems"(1) have g: "openThreads < length tp \<and> i < length tp" by simp
    show ?thesis
    proof (cases "tp ! i")
      case Invalid
      have d: "drain rcd tp i openThreads c j = drain rcd tp ?i (?o + 1) c j"
        using g Invalid by (simp add: drain.simps [of rcd tp i openThreads c j])
      have "lap_inv tp ((i + 1) mod length tp) (?o + 1)"
        using lap_inv_next [OF "1.prems", of tp] Invalid by simp
      from "1.IH"(1) [OF g refl Invalid i' this] d show ?thesis by simp
    next
      case (Running r t)
      show ?thesis
      proof (cases "t \<le> c")
        case True
        let ?tp = "tp[i := Invalid]"
        have d: "drain rcd tp i openThreads c j = drain rcd ?tp ?i (?o + 1) c (rcd j r)"
          using g Running True by (simp add: drain.simps [of rcd tp i openThreads c j])
        have l: "lap_inv ?tp ((i + 1) mod length ?tp) (?o + 1)"
          using lap_inv_next [OF "1.prems", of ?tp] "1.prems"(1) by simp
        have i2: "?i < length ?tp" using i' by simp
        from "1.IH"(2) [OF g refl Running True] i2 l
        obtain rs c' where
          r: "drain rcd ?tp ?i (?o + 1) c (rcd j r) =
                (replicate (length ?tp) Invalid, 0, c', foldl rcd (rcd j r) rs)"
          "mset rs = mset (pending ?tp)" "c \<le> c'"
          by auto
        from pending_collect [OF "1.prems"(1) Running] r(2)
        have m: "mset (r # rs) = mset (pending tp)" by simp
        from d r(1) have "drain rcd tp i openThreads c j =
            (replicate (length tp) Invalid, 0, c', foldl rcd j (r # rs))"
          by simp
        with m r(3) show ?thesis by blast
      next
        case False
        have d: "drain rcd tp i openThreads c j = drain rcd tp ?i ?o (c + 1) j"
          using g Running False by (simp add: drain.simps [of rcd tp i openThreads c j])
        have l: "lap_inv tp ?i ?o"
          using lap_inv_skip [OF "1.prems"] Running by simp
        from "1.IH"(3) [OF g refl Running False i' l]
        obtain rs c' where
          r: "drain rcd tp ?i ?o (c + 1) j = (replicate (length tp) Invalid, 0, c', foldl rcd j rs)"
          "mset rs = mset (pending tp)" "c + 1 \<le> c'"
          by auto
        from r(3) have "c \<le> c'" by simp
        with d r(1,2) show ?thesis by auto
      qed
    qed
  qed
qed

lemma drain_running:
  "drain rcd tp i openThreads c j = (tp', i', c', j') \<Longrightarrow>
   length tp' = length tp \<and> running tp' \<le> running tp \<and> c \<le> c'"
proof (induction rcd tp i openThreads c j rule: drain.induct)
  case (1 rcd tp i openThreads c j)
  let ?o = "if i = 0 then 0 else openThreads"
  let ?i = "(i + 1) mod length tp"
  show ?case
  proof (cases "openThreads < length tp \<and> i < length tp")
    case False
    with "1.prems" show ?thesis by (simp add: drain.simps [of rcd tp i openThreads c j])
  next
    case g: True
    show ?thesis
    proof (cases "tp ! i")
      case Invalid
      with g "1.prems" have "drain rcd tp ?i (?o + 1) c j = (tp', i', c', j')"
        by (simp add: drain.simps [of rcd tp i openThreads c j])
      from "1.IH"(1) [OF g refl Invalid this] show ?thesis .
    next
      case (Running r t)
      show ?thesis
      proof (cases "t \<le> c")
        case True
        with g Running "1.prems"
        have "drain rcd (tp[i := Invalid]) ?i (?o + 1) c (rcd j r) = (tp', i', c', j')"
          by (simp add: drain.simps [of rcd tp i openThreads c j])
        from "1.IH"(2) [OF g refl Running True this]
        have "length tp' = length tp \<and> running tp' \<le> running (tp[i := Invalid]) \<and> c \<le> c'"
          by simp
        moreover from g Running have "running (tp[i := Invalid]) < running tp"
          by (auto intro: running_collect)
        ultimately show ?thesis by simp
      next
        case False
        with g Running "1.prems" have "drain rcd tp ?i ?o (c + 1) j = (tp', i', c', j')"
          by (simp add: drain.simps [of rcd tp i openThreads c j])
        from "1.IH"(3) [OF g refl Running False this] show ?thesis by simp
      qed
    qed
  qed
qed

subsection \<open>The main loop along the enumeration\<close>

lemma loop_body_pool_ok:
  assumes "pool_ok V st" "loop_body V st = Inr st'"
  shows "pool_ok V st'"
proof (cases "1 < threadCount (args_of V)")
  case False
  then show ?thesis by (simp add: pool_ok_def)
next
  case True
  from assms(2) obtain info tb hn where
    n: "nextIter (args_of V) (s_tables st) (s_preInfo st) = Inr (info, tb, hn)"
    by (auto simp: loop_body_def split: sum.splits)
  let ?st1 = "st\<lparr>s_tables := tb, s_preInfo := info, s_hasNextIter := hn\<rparr>"
  from assms(2) n True obtain r where r: "algorithm (engine_of V) info = Inr r"
    by (auto simp: loop_body_def Let_def split: sum.splits)
  obtain res st2 where s: "submit (world_of V) ?st1 r = (res, st2)"
    by (cases "submit (world_of V) ?st1 r")
  from assms(1) True have "nextIndex ?st1 < length (threadPool ?st1)"
    by (simp add: pool_ok_def)
  from submit_result [OF this s] assms(1) True
  have ok2: "length (threadPool st2) = threadCount (args_of V)"
    "nextIndex st2 < threadCount (args_of V)"
    by (simp_all add: pool_ok_def)
  from assms(2) n r s True have "st' = st2 \<or> (\<exists>j. st' = st2\<lparr>s_journal := j\<rparr>)"
    by (auto simp: loop_body_def Let_def split: option.splits)
  with ok2 True show ?thesis by (auto simp: pool_ok_def)
qed

lemma reachable_pool_ok: "reachable V st0 st \<Longrightarrow> pool_ok V st0 \<Longrightarrow> pool_ok V st"
  by (induction rule: reachable.induct) (auto intro: loop_body_pool_ok)

lemma state0_pool_ok: "pool_ok V (state0 V tb j)"
  by (simp add: pool_ok_def state0_def)

lemma loop_body_step:
  assumes ok: "pool_ok V st"
    and n: "nextIter (args_of V) (s_tables st) (s_preInfo st) = Inr (info, tb, hn)"
    and r: "algorithm (engine_of V) info = Inr r"
  shows "\<exists>st' rs. loop_body V st = Inr st' \<and> s_tables st' = tb \<and> s_preInfo st' = info \<and>
     s_hasNextIter st' = hn \<and> pool_ok V st' \<and>
     s_journal st' = foldl (record_result V) (s_journal st) rs \<and>
     mset rs + mset (pending (threadPool st')) = add_mset r (mset (pending (threadPool st))) \<and>
     (\<not> 1 < threadCount (args_of V) \<longrightarrow> rs = [r])"
proof (cases "1 < threadCount (args_of V)")
  case False
  let ?st = "st\<lparr>s_tables := tb, s_preInfo := info, s_hasNextIter := hn,
                s_journal := record_result V (s_journal st) r\<rparr>"
  from n r False have "loop_body V st = Inr ?st" by (simp add: loop_body_def)
  moreover have "s_journal ?st = foldl (record_result V) (s_journal st) [r]" by simp
  moreover have "mset [r] + mset (pending (threadPool ?st)) = add_mset r (mset (pending (threadPool st)))"
    by simp
  moreover have "pool_ok V ?st" using False by (simp add: pool_ok_def)
  ultimately show ?thesis using False by (intro exI [of _ ?st] exI [of _ "[r]"]) simp
next
  case True
  let ?st1 = "st\<lparr>s_tables := tb, s_preInfo := info, s_hasNextIter := hn\<rparr>"
  obtain res st2 where s: "submit (world_of V) ?st1 r = (res, st2)"
    by (cases "submit (world_of V) ?st1 r")
  from ok True have i: "nextIndex ?st1 < length (threadPool ?st1)"
    by (simp add: pool_ok_def)
  let ?st = "st2\<lparr>s_journal := foldl (record_result V) (s_journal st2) (taken res)\<rparr>"
  from n r s True have lb: "loop_body V st = Inr ?st"
    by (cases res) (simp_all add: loop_body_def)
  from submit_result [OF i s] ok True
  have f: "s_tables ?st = tb" "s_preInfo ?st = info" "s_hasNextIter ?st = hn"
    "s_journal ?st = foldl (record_result V) (s_journal st) (taken res)"
    "length (threadPool st2) = threadCount (args_of V)" "nextIndex st2 < threadCount (args_of V)"
    by (simp_all add: pool_ok_def)
  then have ok': "pool_ok V ?st" by (simp add: pool_ok_def)
  from submit_pending [OF i s]
  have m: "mset (taken res) + mset (pending (threadPool ?st)) = add_mset r (mset (pending (threadPool st)))"
    by simp
  from lb f(1-4) ok' m True show ?thesis
    by (intro exI [of _ ?st] exI [of _ "taken res"]) simp
qed

lemma enumerate_enum_run_aux:
  "enumerate A acc tb preInfo hn = Some res \<Longrightarrow>
   (\<forall>infos. res = Inr infos \<longrightarrow> (\<exists>new. infos = acc @ new \<and> enum_run A tb preInfo hn new))"
proof (induction rule: enumerate.raw_induct [rotated 1, consumes 1])
  case (1 enumerate' A acc tb preInfo hn res)
  show ?case
  proof (cases hn)
    case False
    with 1(2) show ?thesis by (auto intro: enum_run.stop)
  next
    case True
    show ?thesis
    proof (intro allI impI)
      fix infos
      assume res: "res = Inr infos"
      with True 1(2) obtain info tb' hn' where
        n: "nextIter A tb preInfo = Inr (info, tb', hn')"
        and e: "enumerate' A (acc @ [info]) tb' info hn' = Some (Inr infos)"
        by (auto split: sum.splits)
      from 1(1) [OF e] obtain new where "infos = (acc @ [info]) @ new" "enum_run A tb' info hn' new"
        by blast
      with n True show "\<exists>new. infos = acc @ new \<and> enum_run A tb preInfo hn new"
        by (auto intro: enum_run.again)
    qed
  qed
qed

lemma enumerate_enum_run:
  "enumerate A [] tb preInfo hn = Some (Inr infos) \<Longrightarrow> enum_run A tb preInfo hn infos"
  by (drule enumerate_enum_run_aux) simp

lemma main_loop_run:
  assumes "enum_run A tb preInfo hn infos"
    and "A = args_of V" "map (algorithm (engine_of V)) infos = map Inr res"
    and "s_tables st = tb" "s_preInfo st = preInfo" "s_hasNextIter st = hn" "pool_ok V st"
  shows "\<exists>st' rs. main_loop V st = Some (Inr st') \<and> pool_ok V st' \<and>
     s_journal st' = foldl (record_result V) (s_journal st) rs \<and>
     mset rs + mset (pending (threadPool st')) = mset (pending (threadPool st)) + mset res \<and>
     (\<not> 1 < threadCount (args_of V) \<longrightarrow> rs = res)"
  using assms
proof (induction arbitrary: st res rule: enum_run.induct)
  case (stop tb preInfo)
  then have "main_loop V st = Some (Inr st)" by (simp add: main_loop.simps)
  moreover have "s_journal st = foldl (record_result V) (s_journal st) []" by simp
  moreover from stop have "res = []" by simp
  ultimately show ?case using stop.prems
    by (intro exI [of _ st] exI [of _ "[]"]) simp
next
  case (again tb preInfo info tb' hn infos)
  from again.prems(2) obtain r res' where
    res: "res = r # res'" and r: "algorithm (engine_of V) info = Inr r"
    and res': "map (algorithm (engine_of V)) infos = map Inr res'"
    by (cases res) auto
  from again.hyps(1) again.prems(1,3,4)
  have n: "nextIter (args_of V) (s_tables st) (s_preInfo st) = Inr (info, tb', hn)" by simp
  from loop_body_step [OF again.prems(6) n r]
  obtain st1 rs1 where
    s1: "loop_body V st = Inr st1" "s_tables st1 = tb'" "s_preInfo st1 = info"
      "s_hasNextIter st1 = hn" "pool_ok V st1"
      "s_journal st1 = foldl (record_result V) (s_journal st) rs1"
      "mset rs1 + mset (pending (threadPool st1)) = add_mset r (mset (pending (threadPool st)))"
      "\<not> 1 < threadCount (args_of V) \<longrightarrow> rs1 = [r]"
    by blast
  from again.IH [OF again.prems(1) res' s1(2-5)]
  obtain st2 rs2 where
    s2: "main_loop V st1 = Some (Inr st2)" "pool_ok V st2"
      "s_journal st2 = foldl (record_result V) (s_journal st1) rs2"
      "mset rs2 + mset (pending (threadPool st2)) = mset (pending (threadPool st1)) + mset res'"
      "\<not> 1 < threadCount (args_of V) \<longrightarrow> rs2 = res'"
    by blast
  from again.prems(5) s1(1) s2(1) have m: "main_loop V st = Some (Inr st2)"
    by (subst main_loop.simps) simp
  from s1(6) s2(3) have j: "s_journal st2 = foldl (record_result V) (s_journal st) (rs1 @ rs2)"
    by simp
  have "mset (rs1 @ rs2) + mset (pending (threadPool st2)) =
      mset rs1 + (mset (pending (threadPool st1)) + mset res')"
    using s2(4) by (simp add: ac_simps)
  also have "\<dots> = add_mset r (mset (pending (threadPool st))) + mset res'"
    using s1(7) by (simp add: ac_simps)
  finally have ms: "mset (rs1 @ rs2) + mset (pending (threadPool st2)) =
      mset (pending (threadPool st)) + mset res"
    using res by simp
  from s1(8) s2(5) res have o: "\<not> 1 < threadCount (args_of V) \<longrightarrow> rs1 @ rs2 = res" by simp
  from m s2(2) j ms o show ?case
    by (intro exI [of _ st2] exI [of _ "rs1 @ rs2"]) simp
qed

lemma journal_foldl:
  "root (foldl (record_result V) j rs) =
     root j @ map (\<lambda>(k, r). data_node (printer_of V) (time_at (world_of V) (completion j + k)) (fst r))
                (zip [0..<length rs] rs) \<and>
   completion (foldl (record_result V) j rs) = completion j + length rs"
proof (induction rs rule: rev_induct)
  case Nil
  show ?case by simp
next
  case (snoc r rs)
  have z: "zip [0..<length (rs @ [r])] (rs @ [r]) = zip [0..<length rs] rs @ [(length rs, r)]"
    by simp
  show ?case
    unfolding z using snoc
    by (simp add: record_result_def recordData_def write_doc_def Let_def)
qed

lemma all_Inr:
  "(\<forall>x\<in>set xs. \<exists>r. f x = Inr r) \<Longrightarrow> \<exists>rs. map f xs = map Inr rs"
proof (induction xs)
  case Nil
  show ?case by simp
next
  case (Cons x xs)
  then obtain r rs where "f x = Inr r" "map f xs = map Inr rs" by auto
  then have "map f (x # xs) = map Inr (r # rs)" by simp
  then show ?case by blast
qed

section \<open>Claims about the parser\<close>



text \<open>
  The values are not \<open>start + i * step\<close> in general, and the loop need not end. With
  \<^verbatim>\<open>kT : 9007199254740992 9007199254740994 1\<close> the three values \<open>2 ^ 53\<close>, \<open>2 ^ 53 + 1\<close> and
  \<open>2 ^ 53 + 2\<close> are within the limit, but \<open>2 ^ 53 + 1\<close> is rounded to \<open>2 ^ 53\<close>: the loop does not
  end and \<^verbatim>\<open>main\<close> does not return. With \<^verbatim>\<open>kT : 0.1 0.3 0.1\<close>, the three numbers read as the
  nearest values of the format, the third value of the list is not the first plus twice the
  step.
\<close>

theorem range_entry_progression_counterexample:
  "map (\<lambda>i. 9007199254740992 + of_nat i * 1)
     [0..<nat \<lceil>(9007199254740994 + 1 / 256 - 9007199254740992 :: rat) / 1\<rceil>] =
     [9007199254740992, 9007199254740993, 9007199254740994 :: rat] \<and>
   parse_ops std_lib [] [] [['':'', ''9007199254740992'', ''9007199254740994'', ''1'']] =
     Inl Never_ends \<and>
   main (toy_env 1) [[''kT'', '':'', ''9007199254740992'', ''9007199254740994'', ''1'']] = None \<and>
   range_loop [] (3602879701896397 / 36028797018963968)
     (round_double (5404319552844595 / 18014398509481984 +
        fl (3602879701896397 / 36028797018963968 / 256)))
     (3602879701896397 / 36028797018963968) =
     Some [3602879701896397 / 36028797018963968, 3602879701896397 / 18014398509481984,
           1351079888211149 / 4503599627370496] \<and>
   (1351079888211149 / 4503599627370496 :: rat) \<noteq>
     3602879701896397 / 36028797018963968 + 2 * (3602879701896397 / 36028797018963968)"
proof -
  have "\<lceil>(9007199254740994 + 1 / 256 - 9007199254740992 :: rat) / 1\<rceil> = 3"
    by (simp add: ceiling_eq_iff)
  then have n: "nat \<lceil>(9007199254740994 + 1 / 256 - 9007199254740992 :: rat) / 1\<rceil> = 3"
    by simp
  have 1: "map (\<lambda>i. 9007199254740992 + of_nat i * 1)
     [0..<nat \<lceil>(9007199254740994 + 1 / 256 - 9007199254740992 :: rat) / 1\<rceil>] =
     [9007199254740992, 9007199254740993, 9007199254740994 :: rat]"
    unfolding n by (simp add: upt_rec)
  have 2: "parse_ops std_lib [] [] [['':'', ''9007199254740992'', ''9007199254740994'', ''1'']] =
     Inl Never_ends"
    by (simp add: parse_ops.simps std_reads stall_example)
  have 3: "main (toy_env 1) [[''kT'', '':'', ''9007199254740992'', ''9007199254740994'', ''1'']] = None"
    by (simp add: main_def toy_env_def parse_def parse_loop.simps parse_ops.simps std_reads
        stall_example first_is_def)
  have 4: "(1351079888211149 / 4503599627370496 :: rat) \<noteq>
     3602879701896397 / 36028797018963968 + 2 * (3602879701896397 / 36028797018963968)"
    by simp
  from 1 2 3 4 tenth_loop show ?thesis by blast
qed

lemma read_vals_concat:
  "concat s = ts @ t0 # rest \<Longrightarrow> \<forall>t\<in>set ts. rd t \<noteq> None \<Longrightarrow> rd t0 = None \<Longrightarrow>
   \<exists>s'. read_vals rd vec s = (vec @ map (\<lambda>t. the (rd t)) ts, s') \<and> concat s' = t0 # rest"
proof (induction ts arbitrary: s vec)
  case Nil
  then obtain s1 where "next_word s = Some (t0, s1)"
    using concat_next_word [of s t0 rest] by auto
  with Nil have "next_num rd s = None"
    by (simp add: next_num_def)
  then have "read_vals rd vec s = (vec, s)"
    by (subst read_vals.simps) simp
  with Nil show ?case by simp
next
  case (Cons t ts)
  then obtain s1 where w: "next_word s = Some (t, s1)" and c: "concat s1 = ts @ t0 # rest"
    using concat_next_word [of s t "ts @ t0 # rest"] by auto
  from Cons.prems obtain v where v: "rd t = Some v" by auto
  with w have n: "next_num rd s = Some (v, s1)"
    by (simp add: next_num_def)
  from Cons.IH [OF c _ Cons.prems(3), of "vec @ [v]"] Cons.prems(2)
  obtain s' where "read_vals rd (vec @ [v]) s1 = ((vec @ [v]) @ map (\<lambda>t. the (rd t)) ts, s')"
    and "concat s' = t0 # rest" by auto
  with n v show ?case
    by (subst read_vals.simps) simp
qed

text \<open>
  \<^bold>\<open>C7.\<close> An entry with the explicit list \<^verbatim>\<open>{ v1 v2 ... }\<close>: when the tokens between the
  braces are numbers (and the closing brace is not read as one), the list of the entry is
  the list of these numbers in their order; when there is no number between the braces the
  parser throws 6, which ends the parse. \<^verbatim>\<open>{ 0.1 0.2 0.3 }\<close> gives 0.1, 0.2, 0.3, and
  \<^verbatim>\<open>kT { }\<close> makes the parse fail.
\<close>

theorem explicit_list_entry:
  "(concat s = ''{'' # ts @ ''}'' # rest \<and> (\<forall>t\<in>set ts. read_double L t \<noteq> None) \<and>
    read_double L ''}'' = None \<longrightarrow>
      (\<exists>s'. concat s' = rest \<and>
            parse_ops L [] lbl s =
              (if ts = [] then Inl (Throw 6)
               else Inr (map (\<lambda>t. the (read_double L t)) ts, lbl, ''}'', s'))))
   \<and> (\<exists>tb. parse std_lib f [[''kT'', ''{'', ''0.1'', ''0.2'', ''0.3'', ''}'']] = Inr tb \<and>
             sm_find (p tb) ''kT'' = Some [1 / 10, 2 / 10, 3 / 10])
   \<and> parse std_lib f [[''kT'', ''{'', ''}'']] = Inl (Throw 6)"
proof (intro conjI impI)
  assume h: "concat s = ''{'' # ts @ ''}'' # rest \<and> (\<forall>t\<in>set ts. read_double L t \<noteq> None) \<and>
    read_double L ''}'' = None"
  then obtain s1 where w: "next_word s = Some (''{'', s1)" and c: "concat s1 = ts @ ''}'' # rest"
    using concat_next_word [of s "''{''" "ts @ ''}'' # rest"] by auto
  from read_vals_concat [OF c, of "read_double L" "[]"] h
  obtain s2 where r: "read_vals (read_double L) [] s1 = (map (\<lambda>t. the (read_double L t)) ts, s2)"
    and c2: "concat s2 = ''}'' # rest" by auto
  from concat_next_word [OF c2] obtain s3 where w3: "next_word s2 = Some (''}'', s3)"
    and c3: "concat s3 = rest" by auto
  have "parse_ops L [] lbl s =
              (if ts = [] then Inl (Throw 6)
               else Inr (map (\<lambda>t. the (read_double L t)) ts, lbl, ''}'', s3))"
    using w r w3 by (subst parse_ops.simps) simp
  with c3 show "\<exists>s'. concat s' = rest \<and>
            parse_ops L [] lbl s =
              (if ts = [] then Inl (Throw 6)
               else Inr (map (\<lambda>t. the (read_double L t)) ts, lbl, ''}'', s'))"
    by blast
next
  show "\<exists>tb. parse std_lib f [[''kT'', ''{'', ''0.1'', ''0.2'', ''0.3'', ''}'']] = Inr tb \<and>
             sm_find (p tb) ''kT'' = Some [1 / 10, 2 / 10, 3 / 10]"
    by (simp add: parse_def parse_loop.simps parse_ops.simps std_reads read_vals.simps
        add_param_def empty_tables_def sm_find_def sm_get_def Let_def first_is_def)
next
  show "parse std_lib f [[''kT'', ''{'', ''}'']] = Inl (Throw 6)"
    by (simp add: parse_def parse_loop.simps parse_ops.simps std_reads read_vals.simps first_is_def)
qed

theorem explicit_list_entry_witness:
  "concat [[''{'', ''0.1''], [''0.2'', ''0.3'', ''}'', ''JL'']] =
     ''{'' # [''0.1'', ''0.2'', ''0.3''] @ ''}'' # [''JL''] \<and>
   read_double std_lib ''0.1'' \<noteq> None \<and> read_double std_lib ''0.2'' \<noteq> None \<and>
   read_double std_lib ''0.3'' \<noteq> None \<and>
   read_double std_lib ''}'' = None \<and>
   (\<exists>s'. concat s' = [''JL''] \<and>
      parse_ops std_lib [] ''L'' [[''{'', ''0.1''], [''0.2'', ''0.3'', ''}'', ''JL'']] =
        Inr ([1 / 10, 2 / 10, 3 / 10], ''L'', ''}'', s'))"
proof -
  have r: "read_double std_lib ''0.1'' = Some (1 / 10)" "read_double std_lib ''0.2'' = Some (2 / 10)"
    "read_double std_lib ''0.3'' = Some (3 / 10)" "read_double std_lib ''}'' = None"
    by (simp_all add: std_reads)
  have h: "concat [[''{'', ''0.1''], [''0.2'', ''0.3'', ''}'', ''JL'']] =
     ''{'' # [''0.1'', ''0.2'', ''0.3''] @ ''}'' # [''JL''] \<and>
   (\<forall>t\<in>set [''0.1'', ''0.2'', ''0.3'']. read_double std_lib t \<noteq> None) \<and>
   read_double std_lib ''}'' = None"
    by (simp add: r del: not_None_eq)
  have v: "map (\<lambda>t. the (read_double std_lib t)) [''0.1'', ''0.2'', ''0.3''] = [1 / 10, 2 / 10, 3 / 10]"
    using r by simp
  from explicit_list_entry [of "[[''{'', ''0.1''], [''0.2'', ''0.3'', ''}'', ''JL'']]"
      "[''0.1'', ''0.2'', ''0.3'']" "[''JL'']" std_lib "''L''" "''f''"] h
  have "\<exists>s'. concat s' = [''JL''] \<and>
      parse_ops std_lib [] ''L'' [[''{'', ''0.1''], [''0.2'', ''0.3'', ''}'', ''JL'']] =
        Inr ([1 / 10, 2 / 10, 3 / 10], ''L'', ''}'', s')"
    unfolding v by simp
  with h show ?thesis by (simp del: not_None_eq)
qed

text \<open>
  \<^bold>\<open>C10.\<close> After a successful parse every list of values in the table \<^verbatim>\<open>p\<close> has at least
  one element, and so has every length in \<^verbatim>\<open>iterLengths\<close>. The loop that reads one entry
  only returns a list with at least one element. When the progression of a \<^verbatim>\<open>:\<close> operator
  has no element (its start already fails the test of the loop: it is not within the moved
  limit in the direction of the step),
  the entry does not end there: the loop goes on with the tokens that follow, as if the
  operator had not been there. In \<^verbatim>\<open>kT : 5 1 1\<close> followed by \<^verbatim>\<open>JL = 3\<close> the key \<^verbatim>\<open>kT\<close> gets the
  label \<^verbatim>\<open>JL\<close> and the list 3.
\<close>

theorem parsed_lists_nonempty:
  "(parse L argv1 s = Inr tb \<longrightarrow>
      (\<forall>(k, vec) \<in> set (p tb). 1 \<le> length vec) \<and> (\<forall>(l, n) \<in> set (iterLengths tb). 1 \<le> n))
   \<and> (parse_ops L [] lbl s0 = Inr (vec, lbl', str', s') \<longrightarrow> 1 \<le> length vec)
   \<and> (next_word s1 = Some ('':'', s2) \<and> next_num (read_double L) s2 = Some (start, s3) \<and>
        next_num (read_double L) s3 = Some (limit, s4) \<and>
        next_num (read_double L) s4 = Some (step, s5) \<and> step \<noteq> 0 \<and>
        \<not> inside step (round_double (limit + fl (step / 256))) start \<longrightarrow>
          parse_ops L [] lbl1 s1 = parse_ops L [] lbl1 s5)
   \<and> (\<exists>tb. parse std_lib f [[''kT'', '':'', ''5'', ''1'', ''1''], [''JL'', ''='', ''3'']] = Inr tb \<and>
             p tb = [(''kT'', [3])] \<and> labelNames tb = [''JL''])"
proof (intro conjI impI)
  assume "parse L argv1 s = Inr tb"
  then have "tables_ok tb" by (rule parse_ok)
  then show "\<forall>(k, vec) \<in> set (p tb). 1 \<le> length vec" "\<forall>(l, n) \<in> set (iterLengths tb). 1 \<le> n"
    by (simp_all add: tables_ok_def)
next
  assume "parse_ops L [] lbl s0 = Inr (vec, lbl', str', s')"
  then show "1 \<le> length vec" by (rule parse_ops_nonempty)
next
  assume h: "next_word s1 = Some ('':'', s2) \<and> next_num (read_double L) s2 = Some (start, s3) \<and>
        next_num (read_double L) s3 = Some (limit, s4) \<and>
        next_num (read_double L) s4 = Some (step, s5) \<and> step \<noteq> 0 \<and>
        \<not> inside step (round_double (limit + fl (step / 256))) start"
  then have "range_loop [] start (round_double (limit + fl (step / 256))) step = Some []"
    by (subst range_loop.simps) simp
  with h show "parse_ops L [] lbl1 s1 = parse_ops L [] lbl1 s5"
    by (subst parse_ops.simps) simp
next
  show "\<exists>tb. parse std_lib f [[''kT'', '':'', ''5'', ''1'', ''1''], [''JL'', ''='', ''3'']] = Inr tb \<and>
             p tb = [(''kT'', [3])] \<and> labelNames tb = [''JL'']"
    by (simp add: parse_def parse_loop.simps parse_ops.simps std_reads range_evals
        add_param_def empty_tables_def sm_find_def sm_get_def Let_def first_is_def)
qed

theorem parsed_lists_nonempty_witness:
  "parse std_lib ''f'' [[''kT'', '':'', ''1'', ''3'', ''1''], [''JL'', ''kT'', ''{'', ''7'', ''8'', ''9'', ''}'']] =
     Inr \<lparr>p = [(''JL'', [7, 8, 9]), (''kT'', [1, 2, 3])], labelNames = [''kT''],
          labelMap = [(''kT'', [''JL'', ''kT''])], labelMapInv = [(''JL'', ''kT''), (''kT'', ''kT'')],
          iters = [(''kT'', 0)], iterLengths = [(''kT'', 3)], spins = []\<rparr> \<and>
   1 \<le> length [7, 8, 9 :: rat] \<and> 1 \<le> length [1, 2, 3 :: rat] \<and> 1 \<le> (3 :: nat) \<and>
   parse_ops std_lib [] [] [[''='', ''4'']] = Inr ([4], [], ''='', [[]]) \<and> 1 \<le> length [4 :: rat] \<and>
   next_word [['':'', ''5'', ''1'', ''1''], [''='', ''3'']] = Some ('':'', [[''5'', ''1'', ''1''], [''='', ''3'']]) \<and>
   next_num (read_double std_lib) [[''5'', ''1'', ''1''], [''='', ''3'']] = Some (5, [[''1'', ''1''], [''='', ''3'']]) \<and>
   next_num (read_double std_lib) [[''1'', ''1''], [''='', ''3'']] = Some (1, [[''1''], [''='', ''3'']]) \<and>
   next_num (read_double std_lib) [[''1''], [''='', ''3'']] = Some (1, [[], [''='', ''3'']]) \<and>
   (1 :: rat) \<noteq> 0 \<and> \<not> inside 1 (round_double (1 + fl (1 / 256))) 5 \<and>
   parse_ops std_lib [] [] [['':'', ''5'', ''1'', ''1''], [''='', ''3'']] =
     parse_ops std_lib [] [] [[], [''='', ''3'']]"
proof -
  let ?tb = "\<lparr>p = [(''JL'', [7, 8, 9]), (''kT'', [1, 2, 3])], labelNames = [''kT''],
          labelMap = [(''kT'', [''JL'', ''kT''])], labelMapInv = [(''JL'', ''kT''), (''kT'', ''kT'')],
          iters = [(''kT'', 0)], iterLengths = [(''kT'', 3)], spins = []\<rparr>"
  have a: "parse std_lib ''f'' [[''kT'', '':'', ''1'', ''3'', ''1''], [''JL'', ''kT'', ''{'', ''7'', ''8'', ''9'', ''}'']] = Inr ?tb"
    by (simp add: parse_def parse_loop.simps parse_ops.simps std_reads range_evals
        read_vals.simps add_param_def empty_tables_def sm_find_def sm_get_def Let_def first_is_def)
  have b: "parse_ops std_lib [] [] [[''='', ''4'']] = Inr ([4], [], ''='', [[]])"
    by (simp add: parse_ops.simps std_reads)
  have c: "next_word [['':'', ''5'', ''1'', ''1''], [''='', ''3'']] = Some ('':'', [[''5'', ''1'', ''1''], [''='', ''3'']]) \<and>
   next_num (read_double std_lib) [[''5'', ''1'', ''1''], [''='', ''3'']] = Some (5, [[''1'', ''1''], [''='', ''3'']]) \<and>
   next_num (read_double std_lib) [[''1'', ''1''], [''='', ''3'']] = Some (1, [[''1''], [''='', ''3'']]) \<and>
   next_num (read_double std_lib) [[''1''], [''='', ''3'']] = Some (1, [[], [''='', ''3'']]) \<and>
   (1 :: rat) \<noteq> 0 \<and> \<not> inside 1 (round_double (1 + fl (1 / 256))) 5"
  proof -
    have "\<not> inside 1 (round_double (1 + fl (1 / 256))) 5"
      using limit_ints [of 1 1] by (simp add: inside_def)
    then show ?thesis by (simp add: std_reads)
  qed
  note t = parsed_lists_nonempty [of std_lib "''f''"
      "[[''kT'', '':'', ''1'', ''3'', ''1''], [''JL'', ''kT'', ''{'', ''7'', ''8'', ''9'', ''}'']]" ?tb
      "[]" "[[''='', ''4'']]" "[4]" "[]" "''=''" "[[]]"
      "[['':'', ''5'', ''1'', ''1''], [''='', ''3'']]" "[[''5'', ''1'', ''1''], [''='', ''3'']]"
      5 "[[''1'', ''1''], [''='', ''3'']]" 1 "[[''1''], [''='', ''3'']]" 1 "[[], [''='', ''3'']]" "[]" "''f''"]
  from t a have "(\<forall>(k, vec) \<in> set (p ?tb). 1 \<le> length vec) \<and> (\<forall>(l, n) \<in> set (iterLengths ?tb). 1 \<le> n)"
    by blast
  moreover from t b have "1 \<le> length [4 :: rat]" by blast
  moreover from t c have "parse_ops std_lib [] [] [['':'', ''5'', ''1'', ''1''], [''='', ''3'']] =
     parse_ops std_lib [] [] [[], [''='', ''3'']]" by blast
  ultimately show ?thesis using a b c by simp
qed

text \<open>
  \<^bold>\<open>C6.\<close> When among the entries that the parser reads from a file two have the same label
  and lists of different lengths, the parse fails with the error of an inconsistent size.
  The error names the label, the key and the list of the entry at which it is found, the
  length of that list and the different length recorded for the label, which is the length
  of a list read with the same label. \<^verbatim>\<open>main\<close> returns \<^verbatim>\<open>0x17\<close> at once: the report is as it
  was before the preamble, without any record, and no configuration has been asked for.
\<close>

theorem label_length_error:
  "conflict (entries_read (lib_of V) (params_file (args_of V)) s False) \<longrightarrow>
     (\<exists>lbl key vec old.
        parse (lib_of V) (params_file (args_of V)) s =
          Inl (InconsistentSize lbl key vec (length vec) old) \<and>
        old \<noteq> length vec \<and>
        (key, lbl, vec) \<in> set (entries_read (lib_of V) (params_file (args_of V)) s False) \<and>
        (\<exists>key' vec'. (key', lbl, vec') \<in> set (entries_read (lib_of V) (params_file (args_of V)) s False) \<and>
           length vec' = old) \<and>
        main V s = Some (Some 0x17, journal0 (args_of V)) \<and>
        root (journal0 (args_of V)) = [])"
proof
  let ?es = "entries_read (lib_of V) (params_file (args_of V)) s False"
  assume "conflict ?es"
  then have "check_lengths [] ?es \<noteq> None"
    using check_lengths_conflict [of "[]" ?es] by simp
  then obtain lbl key vec old where c: "check_lengths [] ?es = Some (lbl, key, vec, old)"
    by auto
  then have "check_lengths (iterLengths empty_tables) ?es = Some (lbl, key, vec, old)"
    by (simp add: empty_tables_def)
  from parse_loop_check [OF this]
  have p: "parse (lib_of V) (params_file (args_of V)) s =
          Inl (InconsistentSize lbl key vec (length vec) old)"
    by (simp add: parse_def)
  then have m: "main V s = Some (Some 0x17, journal0 (args_of V))"
    by (simp add: main_def)
  from check_lengths_sound [OF c] check_lengths_old [OF c] p m
  show "\<exists>lbl key vec old.
        parse (lib_of V) (params_file (args_of V)) s =
          Inl (InconsistentSize lbl key vec (length vec) old) \<and>
        old \<noteq> length vec \<and>
        (key, lbl, vec) \<in> set ?es \<and>
        (\<exists>key' vec'. (key', lbl, vec') \<in> set ?es \<and> length vec' = old) \<and>
        main V s = Some (Some 0x17, journal0 (args_of V)) \<and>
        root (journal0 (args_of V)) = []"
    by (auto simp: sm_find_def journal0_def)
qed

theorem label_length_error_witness:
  "conflict (entries_read (lib_of (toy_env 1)) (params_file (args_of (toy_env 1)))
      [[''kT'', ''L'', ''{'', ''1'', ''2'', ''}''], [''JL'', ''L'', ''='', ''3'']] False) \<and>
   parse (lib_of (toy_env 1)) (params_file (args_of (toy_env 1)))
      [[''kT'', ''L'', ''{'', ''1'', ''2'', ''}''], [''JL'', ''L'', ''='', ''3'']] =
     Inl (InconsistentSize ''L'' ''JL'' [3] 1 2) \<and>
   main (toy_env 1) [[''kT'', ''L'', ''{'', ''1'', ''2'', ''}''], [''JL'', ''L'', ''='', ''3'']] =
     Some (Some 0x17, journal0 (args_of (toy_env 1)))"
proof -
  have e: "entries_read (lib_of (toy_env 1)) (params_file (args_of (toy_env 1)))
      [[''kT'', ''L'', ''{'', ''1'', ''2'', ''}''], [''JL'', ''L'', ''='', ''3'']] False =
      [(''kT'', ''L'', [1, 2]), (''JL'', ''L'', [3])]"
    by (simp add: toy_env_def entries_read.simps parse_eval)
  have c: "conflict (entries_read (lib_of (toy_env 1)) (params_file (args_of (toy_env 1)))
      [[''kT'', ''L'', ''{'', ''1'', ''2'', ''}''], [''JL'', ''L'', ''='', ''3'']] False)"
    unfolding e by simp
  have p: "parse (lib_of (toy_env 1)) (params_file (args_of (toy_env 1)))
      [[''kT'', ''L'', ''{'', ''1'', ''2'', ''}''], [''JL'', ''L'', ''='', ''3'']] =
     Inl (InconsistentSize ''L'' ''JL'' [3] 1 2)"
    by (simp add: toy_env_def parse_eval)
  from label_length_error [of "toy_env 1"
      "[[''kT'', ''L'', ''{'', ''1'', ''2'', ''}''], [''JL'', ''L'', ''='', ''3'']]"] c
  have "main (toy_env 1) [[''kT'', ''L'', ''{'', ''1'', ''2'', ''}''], [''JL'', ''L'', ''='', ''3'']] =
     Some (Some 0x17, journal0 (args_of (toy_env 1)))"
    by blast
  with c p show ?thesis by simp
qed

section \<open>Claims about the report and the jobs\<close>

text \<open>
  \<^bold>\<open>C8.\<close> \<^verbatim>\<open>recordData\<close>, which the main loop and the final loop over the pool call once
  for every result they take: the children of the root are the former children followed by
  the one new node, so the preamble and the earlier records stay as and where they were;
  the file is then closed, opened again with truncation and the whole document with the
  new record is written to it. After the calls for the results \<open>rs\<close> the children of the
  root are the former ones followed by one node for each result, in the order of the calls.
\<close>

theorem record_appended_and_rewritten:
  "root (recordData P fname now j info) = root j @ [data_node P now info] \<and>
   length (root (recordData P fname now j info)) = Suc (length (root j)) \<and>
   take (length (root j)) (root (recordData P fname now j info)) = root j \<and>
   fout (recordData P fname now j info) =
     fout j @ [Close, Open_trunc fname, Write_doc (document (root j @ [data_node P now info]))] \<and>
   completion (recordData P fname now j info) = completion j + 1 \<and>
   record_result V j (info, ws) =
     recordData (printer_of V) (filename (args_of V)) (time_at (world_of V) (completion j)) j info \<and>
   root (foldl (record_result V) j rs) =
     root j @ map (\<lambda>(k, r). data_node (printer_of V) (time_at (world_of V) (completion j + k)) (fst r))
                (zip [0..<length rs] rs)"
proof -
  have "root (foldl (record_result V) j rs) =
     root j @ map (\<lambda>(k, r). data_node (printer_of V) (time_at (world_of V) (completion j + k)) (fst r))
                (zip [0..<length rs] rs)"
    using journal_foldl [of V j rs] by simp
  then show ?thesis
    by (simp add: recordData_def write_doc_def record_result_def Let_def)
qed

text \<open>
  \<^bold>\<open>C9.\<close> A custom spin whose coordinate has no site, which the engine reports from
  \<^verbatim>\<open>getSpin\<close> by throwing \<^verbatim>\<open>out_of_range\<close>: the job writes one warning with the coordinate, the
  magnitude and the text of the exception, applies the custom spins before and after it as
  it would without it, and returns; what it returns differs from the result for the same
  input without that custom spin only in the list of custom spins that the input itself
  carries, and the record written for it is the same.
\<close>

theorem spin_without_site_skipped:
  "engine_before_spins E info = Inr msd0 \<and>
   getSpin E (fst (custom_spins E msd0 before)) (spin_x s) (spin_y s) (spin_z s) = Inl what \<longrightarrow>
     (\<exists>r wa wb.
        algorithm E (info\<lparr>info_spins := before @ s # after\<rparr>) =
          Inr (r\<lparr>info_spins := before @ s # after\<rparr>,
               wa @ CouldNotSetSpin (spin_x s) (spin_y s) (spin_z s) (spin_norm s) what # wb) \<and>
        algorithm E (info\<lparr>info_spins := before @ after\<rparr>) = Inr (r\<lparr>info_spins := before @ after\<rparr>, wa @ wb) \<and>
        data_node P now (r\<lparr>info_spins := before @ s # after\<rparr>) =
          data_node P now (r\<lparr>info_spins := before @ after\<rparr>) \<and>
        fst (custom_spins E msd0 (before @ s # after)) = fst (custom_spins E msd0 (before @ after)))"
proof
  assume h: "engine_before_spins E info = Inr msd0 \<and>
   getSpin E (fst (custom_spins E msd0 before)) (spin_x s) (spin_y s) (spin_z s) = Inl what"
  define m1 where "m1 = fst (custom_spins E msd0 before)"
  define wa where "wa = snd (custom_spins E msd0 before)"
  define m2 where "m2 = fst (custom_spins E m1 after)"
  define wb where "wb = snd (custom_spins E m1 after)"
  let ?w = "CouldNotSetSpin (spin_x s) (spin_y s) (spin_z s) (spin_norm s) what"
  from h have g: "getSpin E m1 (spin_x s) (spin_y s) (spin_z s) = Inl what"
    by (simp add: m1_def)
  have with_s: "custom_spins E msd0 (before @ s # after) = (m2, wa @ ?w # wb)"
    by (simp add: custom_spins_append [of E msd0 before "s # after"]
        custom_spins_Cons_skip [OF g] m1_def [symmetric] wa_def m2_def wb_def)
  have without: "custom_spins E msd0 (before @ after) = (m2, wa @ wb)"
    by (simp add: custom_spins_append [of E msd0 before after] m1_def [symmetric] wa_def m2_def wb_def)
  define m3 where "m3 = metropolis E (metropolis E (if initMode info = RANDOMIZE then randomize E m2 else m2)
      (t_eq info) 0) (simCount info) (freq info)"
  define r where "r = info\<lparr>results := map (\<lambda>n. (n, observe E m3 n)) result_names, atoms := snapshot E m3\<rparr>"
  have a1: "algorithm E (info\<lparr>info_spins := before @ s # after\<rparr>) =
          Inr (r\<lparr>info_spins := before @ s # after\<rparr>, wa @ ?w # wb)"
    using h with_s by (simp add: algorithm_alt Let_def r_def m3_def)
  have a2: "algorithm E (info\<lparr>info_spins := before @ after\<rparr>) =
          Inr (r\<lparr>info_spins := before @ after\<rparr>, wa @ wb)"
    using h without by (simp add: algorithm_alt Let_def r_def m3_def)
  have d: "data_node P now (r\<lparr>info_spins := before @ s # after\<rparr>) =
          data_node P now (r\<lparr>info_spins := before @ after\<rparr>)"
    by (simp add: data_node_def)
  from a1 a2 d with_s without
  show "\<exists>r wa wb.
        algorithm E (info\<lparr>info_spins := before @ s # after\<rparr>) =
          Inr (r\<lparr>info_spins := before @ s # after\<rparr>,
               wa @ CouldNotSetSpin (spin_x s) (spin_y s) (spin_z s) (spin_norm s) what # wb) \<and>
        algorithm E (info\<lparr>info_spins := before @ after\<rparr>) = Inr (r\<lparr>info_spins := before @ after\<rparr>, wa @ wb) \<and>
        data_node P now (r\<lparr>info_spins := before @ s # after\<rparr>) =
          data_node P now (r\<lparr>info_spins := before @ after\<rparr>) \<and>
        fst (custom_spins E msd0 (before @ s # after)) = fst (custom_spins E msd0 (before @ after))"
    by auto
qed

theorem spin_without_site_skipped_witness:
  "engine_before_spins toy_engine (toy_info\<lparr>width := 1, height := 1, depth := 1\<rparr>) =
     Inr \<lparr>box = (1, 1, 1), set_spins = []\<rparr> \<and>
   getSpin toy_engine
     (fst (custom_spins toy_engine \<lparr>box = (1, 1, 1), set_spins = []\<rparr>
        [\<lparr>spin_x = 0, spin_y = 0, spin_z = 0, spin_norm = 2\<rparr>])) 1 0 0 =
     Inl ''no atom at this location'' \<and>
   (\<exists>r wa wb.
      algorithm toy_engine (toy_info\<lparr>width := 1, height := 1, depth := 1,
          info_spins := [\<lparr>spin_x = 0, spin_y = 0, spin_z = 0, spin_norm = 2\<rparr>,
                         \<lparr>spin_x = 1, spin_y = 0, spin_z = 0, spin_norm = 5 / 2\<rparr>]\<rparr>) =
        Inr (r\<lparr>info_spins := [\<lparr>spin_x = 0, spin_y = 0, spin_z = 0, spin_norm = 2\<rparr>,
                               \<lparr>spin_x = 1, spin_y = 0, spin_z = 0, spin_norm = 5 / 2\<rparr>]\<rparr>,
             wa @ CouldNotSetSpin 1 0 0 (5 / 2) ''no atom at this location'' # wb) \<and>
      algorithm toy_engine (toy_info\<lparr>width := 1, height := 1, depth := 1,
          info_spins := [\<lparr>spin_x = 0, spin_y = 0, spin_z = 0, spin_norm = 2\<rparr>]\<rparr>) =
        Inr (r\<lparr>info_spins := [\<lparr>spin_x = 0, spin_y = 0, spin_z = 0, spin_norm = 2\<rparr>]\<rparr>, wa @ wb))"
proof -
  let ?i = "toy_info\<lparr>width := 1, height := 1, depth := 1\<rparr>"
  let ?m = "\<lparr>box = (1, 1, 1), set_spins = []\<rparr>"
  let ?a = "\<lparr>spin_x = 0, spin_y = 0, spin_z = 0, spin_norm = 2\<rparr>"
  let ?s = "\<lparr>spin_x = 1, spin_y = 0, spin_z = 0, spin_norm = 5 / 2\<rparr>"
  have h: "engine_before_spins toy_engine ?i = Inr ?m \<and>
     getSpin toy_engine (fst (custom_spins toy_engine ?m [?a])) (spin_x ?s) (spin_y ?s) (spin_z ?s) =
       Inl ''no atom at this location''"
    by (simp add: engine_before_spins_def toy_engine_def toy_info_def custom_spins_def
        custom_spin_def toy_get_def toy_site_def)
  from spin_without_site_skipped [of toy_engine ?i ?m "[?a]" ?s "''no atom at this location''" "[]"
      toy_printer 0] h
  obtain r wa wb where
    "algorithm toy_engine (?i\<lparr>info_spins := [?a] @ ?s # []\<rparr>) =
       Inr (r\<lparr>info_spins := [?a] @ ?s # []\<rparr>,
            wa @ CouldNotSetSpin (spin_x ?s) (spin_y ?s) (spin_z ?s) (spin_norm ?s)
              ''no atom at this location'' # wb)"
    "algorithm toy_engine (?i\<lparr>info_spins := [?a] @ []\<rparr>) = Inr (r\<lparr>info_spins := [?a] @ []\<rparr>, wa @ wb)"
    by blast
  then have "\<exists>r wa wb.
      algorithm toy_engine (?i\<lparr>info_spins := [?a, ?s]\<rparr>) =
        Inr (r\<lparr>info_spins := [?a, ?s]\<rparr>,
             wa @ CouldNotSetSpin 1 0 0 (5 / 2) ''no atom at this location'' # wb) \<and>
      algorithm toy_engine (?i\<lparr>info_spins := [?a]\<rparr>) = Inr (r\<lparr>info_spins := [?a]\<rparr>, wa @ wb)"
    by (intro exI [of _ r] exI [of _ wa] exI [of _ wb]) simp
  with h show ?thesis by simp
qed

section \<open>Claims about the enumerator and the pool\<close>



text \<open>
  \<^bold>\<open>C2.\<close> With one thread, a pass of the main loop calls \<^verbatim>\<open>algorithm\<close> on the configuration
  that \<^verbatim>\<open>nextIter\<close> has just returned and passes the result to \<^verbatim>\<open>recordData\<close> before the next
  configuration is made. So when the enumeration ends with the configurations \<open>infos\<close> and
  each job returns, the main loop ends, the final loop over the pool does nothing, and the
  report is the preamble followed by the records of the results of \<open>infos\<close>, one for each
  and in the order of the enumeration.
\<close>

theorem inline_in_order:
  "threadCount (args_of V) = 1 \<longrightarrow>
     (nextIter (args_of V) (s_tables s) (s_preInfo s) = Inr (info, tb', hn) \<and>
      algorithm (engine_of V) info = Inr r \<longrightarrow>
        loop_body V s =
          Inr (s\<lparr>s_tables := tb', s_preInfo := info, s_hasNextIter := hn,
                 s_journal := record_result V (s_journal s) r\<rparr>)) \<and>
     (enumerate (args_of V) [] tb (preInfo0 V) True = Some (Inr infos) \<and>
      map (algorithm (engine_of V)) infos = map Inr res \<longrightarrow>
        (\<exists>st. main_loop V (state0 V tb j) = Some (Inr st) \<and> drain_pool V st = st \<and>
           s_journal st = foldl (record_result V) j res \<and>
           root (s_journal st) =
             root j @ map (\<lambda>(k, r). data_node (printer_of V) (time_at (world_of V) (completion j + k)) (fst r))
                        (zip [0..<length infos] res)))"
proof (rule impI, rule conjI; rule impI)
  assume "threadCount (args_of V) = 1"
    and "nextIter (args_of V) (s_tables s) (s_preInfo s) = Inr (info, tb', hn) \<and>
      algorithm (engine_of V) info = Inr r"
  then show "loop_body V s =
          Inr (s\<lparr>s_tables := tb', s_preInfo := info, s_hasNextIter := hn,
                 s_journal := record_result V (s_journal s) r\<rparr>)"
    by (simp add: loop_body_def)
next
  assume n: "threadCount (args_of V) = 1"
    and h: "enumerate (args_of V) [] tb (preInfo0 V) True = Some (Inr infos) \<and>
      map (algorithm (engine_of V)) infos = map Inr res"
  then have r: "enum_run (args_of V) tb (preInfo0 V) True infos"
    by (intro enumerate_enum_run) simp
  from h have l: "length infos = length res" by (metis length_map)
  from h have hm: "map (algorithm (engine_of V)) infos = map Inr res" by simp
  have "\<exists>st' rs. main_loop V (state0 V tb j) = Some (Inr st') \<and> pool_ok V st' \<and>
     s_journal st' = foldl (record_result V) (s_journal (state0 V tb j)) rs \<and>
     mset rs + mset (pending (threadPool st')) = mset (pending (threadPool (state0 V tb j))) + mset res \<and>
     (\<not> 1 < threadCount (args_of V) \<longrightarrow> rs = res)"
    by (rule main_loop_run [OF r refl hm _ _ _ state0_pool_ok]) (simp_all add: state0_def)
  then obtain st rs where m: "main_loop V (state0 V tb j) = Some (Inr st)"
    and j: "s_journal st = foldl (record_result V) (s_journal (state0 V tb j)) rs"
    and rs: "\<not> 1 < threadCount (args_of V) \<longrightarrow> rs = res"
    by blast
  from rs n have "rs = res" by simp
  with j have j': "s_journal st = foldl (record_result V) j res" by (simp add: state0_def)
  from n have d: "drain_pool V st = st" by (simp add: drain_pool_def)
  from m d j' l journal_foldl [of V j res] show "\<exists>st. main_loop V (state0 V tb j) = Some (Inr st) \<and>
        drain_pool V st = st \<and> s_journal st = foldl (record_result V) j res \<and>
        root (s_journal st) =
          root j @ map (\<lambda>(k, r). data_node (printer_of V) (time_at (world_of V) (completion j + k)) (fst r))
                     (zip [0..<length infos] res)"
    by simp
qed

theorem inline_in_order_witness:
  "threadCount (args_of (toy_env 1)) = 1 \<and>
   (\<exists>info tb' r.
      nextIter (args_of (toy_env 1)) (s_tables (toy_state 1)) (s_preInfo (toy_state 1)) =
        Inr (info, tb', True) \<and>
      algorithm (engine_of (toy_env 1)) info = Inr r \<and>
      loop_body (toy_env 1) (toy_state 1) =
        Inr ((toy_state 1)\<lparr>s_tables := tb', s_preInfo := info, s_hasNextIter := True,
               s_journal := record_result (toy_env 1) (s_journal (toy_state 1)) r\<rparr>)) \<and>
   (\<exists>infos res st.
      enumerate (args_of (toy_env 1)) [] toy_tables (preInfo0 (toy_env 1)) True = Some (Inr infos) \<and>
      length infos = 6 \<and>
      map (algorithm (engine_of (toy_env 1))) infos = map Inr res \<and>
      main_loop (toy_env 1) (toy_state 1) = Some (Inr st) \<and>
      s_journal st = foldl (record_result (toy_env 1)) (journal0 (args_of (toy_env 1))) res \<and>
      length (root (s_journal st)) = 6)"
proof -
  let ?V = "toy_env 1"
  have n: "threadCount (args_of ?V) = 1" by (simp add: toy_env_def)
  obtain info tb' where f: "nextIter (args_of ?V) (s_tables (toy_state 1)) (s_preInfo (toy_state 1)) =
      Inr (info, tb', True)"
    using toy_first [of "args_of ?V" "s_preInfo (toy_state 1)"]
    by (auto simp: toy_state_def state0_def)
  obtain r where r: "algorithm (engine_of ?V) info = Inr r"
    using toy_algorithm [of info] by (auto simp: toy_env_def)
  obtain infos where e: "enumerate (args_of ?V) [] toy_tables (preInfo0 ?V) True = Some (Inr infos)"
    and l: "length infos = 6"
    using toy_enumerate [of "args_of ?V" "preInfo0 ?V"] by blast
  have "\<forall>x\<in>set infos. \<exists>r. algorithm (engine_of ?V) x = Inr r"
    using toy_algorithm by (simp add: toy_env_def)
  from all_Inr [OF this] obtain res where m: "map (algorithm (engine_of ?V)) infos = map Inr res"
    by blast
  then have l': "length res = 6" using l by (metis length_map)
  note t = inline_in_order [of ?V "toy_state 1" info tb' True r toy_tables infos res
      "journal0 (args_of ?V)"]
  from t n f r have 1: "loop_body ?V (toy_state 1) =
        Inr ((toy_state 1)\<lparr>s_tables := tb', s_preInfo := info, s_hasNextIter := True,
               s_journal := record_result ?V (s_journal (toy_state 1)) r\<rparr>)"
    by blast
  from t n e m obtain st where 2: "main_loop ?V (toy_state 1) = Some (Inr st)"
    "s_journal st = foldl (record_result ?V) (journal0 (args_of ?V)) res"
    "root (s_journal st) =
       root (journal0 (args_of ?V)) @
       map (\<lambda>(k, r). data_node (printer_of ?V) (time_at (world_of ?V) (completion (journal0 (args_of ?V)) + k)) (fst r))
         (zip [0..<length infos] res)"
    unfolding toy_state_def by blast
  from 2(3) l l' have 3: "length (root (s_journal st)) = 6" by (simp add: journal0_def)
  from n f r 1 e l m 2(1,2) 3 show ?thesis by blast
qed

text \<open>
  \<^bold>\<open>C3.\<close> With more than one thread, each time the condition of the main loop is tested the
  pool has \<^verbatim>\<open>threadCount\<close> slots, \<^verbatim>\<open>nextIndex\<close> points at one of them, and so at most
  \<^verbatim>\<open>threadCount\<close> of them hold a job. Waiting for a slot and starting the new job changes the
  slot at the final \<^verbatim>\<open>nextIndex\<close> and no other. Either that slot was invalid, no result is
  handed on and one more job is in the pool; or it held a job that was ready, the result of
  that job is handed on and the number of jobs in the pool is the same. The final loop
  keeps the slots and never has more jobs in them than it found.
\<close>

theorem at_most_N_in_flight:
  "(1 < threadCount (args_of V) \<and> reachable V (state0 V tb j) st \<longrightarrow>
      length (threadPool st) = threadCount (args_of V) \<and>
      nextIndex st < threadCount (args_of V) \<and>
      running (threadPool st) \<le> threadCount (args_of V)) \<and>
   (nextIndex st < length (threadPool st) \<and> submit W st r = (res, st') \<longrightarrow>
      threadPool st' = (threadPool st)[nextIndex st' := Running r (clock st' + dur W (launched st))] \<and>
      nextIndex st' < length (threadPool st) \<and>
      running (threadPool st') \<le> length (threadPool st) \<and>
      s_journal st' = s_journal st \<and>
      ((res = None \<and> threadPool st ! nextIndex st' = Invalid \<and>
          running (threadPool st') = Suc (running (threadPool st))) \<or>
       (\<exists>r0 t0. res = Some r0 \<and> threadPool st ! nextIndex st' = Running r0 t0 \<and>
          t0 \<le> clock st' \<and> running (threadPool st') = running (threadPool st)))) \<and>
   (drain rcd tp k n c jr = (tp', k', c', jr') \<longrightarrow>
      length tp' = length tp \<and> running tp' \<le> running tp)"
proof (intro conjI; rule impI)
  assume h: "1 < threadCount (args_of V) \<and> reachable V (state0 V tb j) st"
  with reachable_pool_ok [OF _ state0_pool_ok, of V tb j st]
  have a: "length (threadPool st) = threadCount (args_of V)"
    "nextIndex st < threadCount (args_of V)"
    by (simp_all add: pool_ok_def)
  with running_le_length [of "threadPool st"]
  show "length (threadPool st) = threadCount (args_of V) \<and>
      nextIndex st < threadCount (args_of V) \<and>
      running (threadPool st) \<le> threadCount (args_of V)"
    by simp
next
  assume h: "nextIndex st < length (threadPool st) \<and> submit W st r = (res, st')"
  then have i: "nextIndex st < length (threadPool st)" and s: "submit W st r = (res, st')"
    by simp_all
  note sr = submit_result [OF i s]
  from sr have len: "length (threadPool st') = length (threadPool st)" by simp
  from running_le_length [of "threadPool st'"] len
  have "running (threadPool st') \<le> length (threadPool st)" by simp
  with sr show "threadPool st' = (threadPool st)[nextIndex st' := Running r (clock st' + dur W (launched st))] \<and>
      nextIndex st' < length (threadPool st) \<and>
      running (threadPool st') \<le> length (threadPool st) \<and>
      s_journal st' = s_journal st \<and>
      ((res = None \<and> threadPool st ! nextIndex st' = Invalid \<and>
          running (threadPool st') = Suc (running (threadPool st))) \<or>
       (\<exists>r0 t0. res = Some r0 \<and> threadPool st ! nextIndex st' = Running r0 t0 \<and>
          t0 \<le> clock st' \<and> running (threadPool st') = running (threadPool st)))"
    by blast
next
  assume "drain rcd tp k n c jr = (tp', k', c', jr')"
  from drain_running [OF this] show "length tp' = length tp \<and> running tp' \<le> running tp"
    by simp
qed

theorem at_most_N_in_flight_witness:
  "(\<exists>st1. loop_body (toy_env 2) (toy_state 2) = Inr st1 \<and>
      reachable (toy_env 2) (toy_state 2) st1 \<and>
      length (threadPool st1) = 2 \<and> nextIndex st1 < 2 \<and> running (threadPool st1) \<le> 2) \<and>
   submit (world_of (toy_env 2))
     ((toy_state 2)\<lparr>threadPool := [Running (toy_result 1) 5, Running (toy_result 2) 1]\<rparr>)
     (toy_result 3) =
   (Some (toy_result 2),
    (toy_state 2)\<lparr>threadPool := [Running (toy_result 1) 5, Running (toy_result 3) 3],
      nextIndex := 1, clock := 1, launched := 1\<rparr>) \<and>
   running [Running (toy_result 1) 5, Running (toy_result 3) 3] =
     running [Running (toy_result 1) 5, Running (toy_result 2) 1] \<and>
   drain (\<lambda>j r. j @ [r]) [Running 4 0, Running 9 2] 0 0 0 [] = ([Invalid, Invalid], 0, 2, [4 :: nat, 9]) \<and>
   running [Invalid, Invalid :: nat future] \<le> running [Running (4 :: nat) 0, Running 9 2]"
proof -
  let ?V = "toy_env 2"
  have n: "threadCount (args_of ?V) = 2" by (simp add: toy_env_def)
  obtain info tb where f: "nextIter (args_of ?V) (s_tables (toy_state 2)) (s_preInfo (toy_state 2)) =
      Inr (info, tb, True)"
    using toy_first [of "args_of ?V" "s_preInfo (toy_state 2)"]
    by (auto simp: toy_state_def state0_def)
  obtain r where r: "algorithm (engine_of ?V) info = Inr r"
    using toy_algorithm [of info] by (auto simp: toy_env_def)
  have ok: "pool_ok ?V (toy_state 2)" unfolding toy_state_def by (rule state0_pool_ok)
  from loop_body_step [OF ok f r] obtain st1 where
    lb: "loop_body ?V (toy_state 2) = Inr st1" and hn: "s_hasNextIter st1 = True"
    by auto
  have "s_hasNextIter (toy_state 2)" by (simp add: toy_state_def state0_def)
  from reachable.step [OF reachable.start this lb]
  have re: "reachable ?V (state0 ?V toy_tables (journal0 (args_of ?V))) st1"
    by (simp add: toy_state_def)
  let ?st = "(toy_state 2)\<lparr>threadPool := [Running (toy_result 1) 5, Running (toy_result 2) 1]\<rparr>"
  let ?st' = "(toy_state 2)\<lparr>threadPool := [Running (toy_result 1) 5, Running (toy_result 3) 3],
      nextIndex := 1, clock := 1, launched := 1\<rparr>"
  have i: "nextIndex ?st < length (threadPool ?st)" by (simp add: toy_state_def state0_def)
  from at_most_N_in_flight [of ?V toy_tables "journal0 (args_of ?V)" st1, THEN conjunct1] n re
  have a: "length (threadPool st1) = 2 \<and> nextIndex st1 < 2 \<and> running (threadPool st1) \<le> 2"
    by simp
  from at_most_N_in_flight [of ?V toy_tables "journal0 (args_of ?V)" ?st "world_of ?V" "toy_result 3"
      "Some (toy_result 2)" ?st', THEN conjunct2, THEN conjunct1] i toy_submit
  have b: "running (threadPool ?st') = running (threadPool ?st)"
    by simp
  have d: "drain (\<lambda>j r. j @ [r]) [Running 4 0, Running 9 2] 0 0 0 [] =
      ([Invalid, Invalid], 0, 2, [4 :: nat, 9])"
    by (simp add: drain.simps)
  from at_most_N_in_flight [where rcd = "\<lambda>j r. j @ [r]" and tp = "[Running (4 :: nat) 0, Running 9 2]"
      and k = 0 and n = 0 and c = 0 and jr = "[]" and tp' = "[Invalid, Invalid]" and k' = 0
      and c' = 2 and jr' = "[4, 9]", THEN conjunct2, THEN conjunct2] d
  have e: "running [Invalid, Invalid :: nat future] \<le> running [Running (4 :: nat) 0, Running 9 2]"
    by blast
  from lb re a b toy_submit d e show ?thesis
    by (simp add: toy_state_def)
qed

text \<open>
  \<^bold>\<open>C4.\<close> The final loop over the pool, entered with \<^verbatim>\<open>openThreads = 0\<close> at any index: it
  ends (the function \<open>drain\<close> is total, every job being ready from some value of the clock
  on), it leaves every slot invalid, and the results it has passed to \<^verbatim>\<open>recordData\<close> are
  those of the jobs that were in the pool, each once. A pool without jobs is left as it
  was and nothing is recorded. Over the whole run with more than one thread, when the
  enumeration ends with the configurations \<open>infos\<close> and each job returns: the main loop
  ends, and the results recorded by the main loop and the final loop together are those of
  \<open>infos\<close>, each once, so the report has one record more for each configuration.
\<close>

theorem drain_records_each_once:
  "(i < length tp \<longrightarrow>
      (\<exists>rs c'. drain rcd tp i 0 c j = (replicate (length tp) Invalid, 0, c', foldl rcd j rs) \<and>
         mset rs = mset (pending tp))) \<and>
   (i < n \<longrightarrow> (\<exists>c'. drain rcd (replicate n Invalid) i 0 c j = (replicate n Invalid, 0, c', j))) \<and>
   (1 < threadCount (args_of V) \<and>
    enumerate (args_of V) [] tb (preInfo0 V) True = Some (Inr infos) \<and>
    map (algorithm (engine_of V)) infos = map Inr res \<longrightarrow>
      (\<exists>st rs. main_loop V (state0 V tb j0) = Some (Inr st) \<and>
         s_journal (drain_pool V st) = foldl (record_result V) j0 rs \<and> mset rs = mset res \<and>
         threadPool (drain_pool V st) = replicate (threadCount (args_of V)) Invalid \<and>
         length (root (s_journal (drain_pool V st))) = length (root j0) + length infos))"
proof (intro conjI impI)
  assume "i < length tp"
  from drain_result [OF this lap_inv_start [OF this], of rcd c j]
  show "\<exists>rs c'. drain rcd tp i 0 c j = (replicate (length tp) Invalid, 0, c', foldl rcd j rs) \<and>
         mset rs = mset (pending tp)"
    by blast
next
  assume "i < n"
  then have i: "i < length (replicate n (Invalid :: 'a future))" by simp
  from drain_result [OF i lap_inv_start [OF i], of rcd c j]
  obtain rs c' where d: "drain rcd (replicate n Invalid) i 0 c j =
      (replicate n Invalid, 0, c', foldl rcd j rs)"
    and "mset rs = mset (pending (replicate n (Invalid :: 'a future)))"
    by auto
  then have "rs = []" by (simp add: pending_replicate)
  with d show "\<exists>c'. drain rcd (replicate n Invalid) i 0 c j = (replicate n Invalid, 0, c', j)"
    by simp
next
  assume h: "1 < threadCount (args_of V) \<and>
    enumerate (args_of V) [] tb (preInfo0 V) True = Some (Inr infos) \<and>
    map (algorithm (engine_of V)) infos = map Inr res"
  then have r: "enum_run (args_of V) tb (preInfo0 V) True infos"
    by (intro enumerate_enum_run) simp
  from h have l: "length infos = length res" by (metis length_map)
  let ?N = "threadCount (args_of V)"
  from h have hm: "map (algorithm (engine_of V)) infos = map Inr res" by simp
  have "\<exists>st' rs. main_loop V (state0 V tb j0) = Some (Inr st') \<and> pool_ok V st' \<and>
     s_journal st' = foldl (record_result V) (s_journal (state0 V tb j0)) rs \<and>
     mset rs + mset (pending (threadPool st')) = mset (pending (threadPool (state0 V tb j0))) + mset res \<and>
     (\<not> 1 < threadCount (args_of V) \<longrightarrow> rs = res)"
    by (rule main_loop_run [OF r refl hm _ _ _ state0_pool_ok]) (simp_all add: state0_def)
  then obtain st rs where m: "main_loop V (state0 V tb j0) = Some (Inr st)"
    and ok: "pool_ok V st"
    and j: "s_journal st = foldl (record_result V) (s_journal (state0 V tb j0)) rs"
    and ms: "mset rs + mset (pending (threadPool st)) =
       mset (pending (threadPool (state0 V tb j0))) + mset res"
    by blast
  from ms h have ms': "mset rs + mset (pending (threadPool st)) = mset res"
    by (simp add: state0_def pending_replicate)
  from ok h have i: "nextIndex st < length (threadPool st)" and len: "length (threadPool st) = ?N"
    by (simp_all add: pool_ok_def)
  from drain_result [OF i lap_inv_start [OF i], of "record_result V" "clock st" "s_journal st"]
  obtain rs2 c' where d: "drain (record_result V) (threadPool st) (nextIndex st) 0 (clock st) (s_journal st) =
      (replicate (length (threadPool st)) Invalid, 0, c', foldl (record_result V) (s_journal st) rs2)"
    and m2: "mset rs2 = mset (pending (threadPool st))"
    by blast
  from d h len have dp: "s_journal (drain_pool V st) = foldl (record_result V) (s_journal st) rs2"
    "threadPool (drain_pool V st) = replicate ?N Invalid"
    by (simp_all add: drain_pool_def)
  from dp(1) j have j2: "s_journal (drain_pool V st) = foldl (record_result V) j0 (rs @ rs2)"
    by (simp add: state0_def)
  from ms' m2 have m3: "mset (rs @ rs2) = mset res" by simp
  then have "length (rs @ rs2) = length res" by (metis size_mset)
  with j2 l journal_foldl [of V j0 "rs @ rs2"]
  have "length (root (s_journal (drain_pool V st))) = length (root j0) + length infos"
    by simp
  with m j2 m3 dp(2) show "\<exists>st rs. main_loop V (state0 V tb j0) = Some (Inr st) \<and>
         s_journal (drain_pool V st) = foldl (record_result V) j0 rs \<and> mset rs = mset res \<and>
         threadPool (drain_pool V st) = replicate (threadCount (args_of V)) Invalid \<and>
         length (root (s_journal (drain_pool V st))) = length (root j0) + length infos"
    by blast
qed

theorem drain_records_each_once_witness:
  "drain (\<lambda>j r. j @ [r]) [Running 7 5, Invalid, Running 8 1] 1 0 0 [] =
     ([Invalid, Invalid, Invalid], 0, 5, [8 :: nat, 7]) \<and>
   pending [Running (7 :: nat) 5, Invalid, Running 8 1] = [7, 8] \<and>
   drain (\<lambda>j r. j @ [r]) [Invalid, Invalid :: nat future] 1 0 3 [] = ([Invalid, Invalid], 0, 3, []) \<and>
   (\<exists>infos res st rs.
      enumerate (args_of (toy_env 2)) [] toy_tables (preInfo0 (toy_env 2)) True = Some (Inr infos) \<and>
      length infos = 6 \<and>
      map (algorithm (engine_of (toy_env 2))) infos = map Inr res \<and>
      main_loop (toy_env 2) (toy_state 2) = Some (Inr st) \<and>
      s_journal (drain_pool (toy_env 2) st) =
        foldl (record_result (toy_env 2)) (journal0 (args_of (toy_env 2))) rs \<and>
      mset rs = mset res \<and>
      threadPool (drain_pool (toy_env 2) st) = [Invalid, Invalid] \<and>
      length (root (s_journal (drain_pool (toy_env 2) st))) = 6)"
proof -
  let ?V = "toy_env 2"
  have n: "threadCount (args_of ?V) = 2" by (simp add: toy_env_def)
  have d1: "drain (\<lambda>j r. j @ [r]) [Running 7 5, Invalid, Running 8 1] 1 0 0 [] =
     ([Invalid, Invalid, Invalid], 0, 5, [8 :: nat, 7])"
    by (simp add: drain.simps)
  have d2: "drain (\<lambda>j r. j @ [r]) [Invalid, Invalid :: nat future] 1 0 3 [] = ([Invalid, Invalid], 0, 3, [])"
    by (simp add: drain.simps)
  obtain infos where e: "enumerate (args_of ?V) [] toy_tables (preInfo0 ?V) True = Some (Inr infos)"
    and l: "length infos = 6"
    using toy_enumerate [of "args_of ?V" "preInfo0 ?V"] by blast
  have "\<forall>x\<in>set infos. \<exists>r. algorithm (engine_of ?V) x = Inr r"
    using toy_algorithm by (simp add: toy_env_def)
  from all_Inr [OF this] obtain res where m: "map (algorithm (engine_of ?V)) infos = map Inr res"
    by blast
  note t = drain_records_each_once [of 1 "[Running (7 :: nat) 5, Invalid, Running 8 1]"
      "\<lambda>j r. j @ [r]" 0 "[]" 2 ?V toy_tables infos res "journal0 (args_of ?V)"]
  have h: "1 < threadCount (args_of ?V) \<and>
      enumerate (args_of ?V) [] toy_tables (preInfo0 ?V) True = Some (Inr infos) \<and>
      map (algorithm (engine_of ?V)) infos = map Inr res"
    using n e m by simp
  from t h obtain st rs where 2: "main_loop ?V (toy_state 2) = Some (Inr st)"
    "s_journal (drain_pool ?V st) = foldl (record_result ?V) (journal0 (args_of ?V)) rs"
    "mset rs = mset res"
    "threadPool (drain_pool ?V st) = replicate (threadCount (args_of ?V)) Invalid"
    "length (root (s_journal (drain_pool ?V st))) = length (root (journal0 (args_of ?V))) + length infos"
    unfolding toy_state_def by blast
  from 2(4) n have 3: "threadPool (drain_pool ?V st) = [Invalid, Invalid]"
    by (simp add: numeral_2_eq_2)
  from 2(5) l have 4: "length (root (s_journal (drain_pool ?V st))) = 6" by (simp add: journal0_def)
  have p: "pending [Running (7 :: nat) 5, Invalid, Running 8 1] = [7, 8]" by simp
  from d1 d2 p e l m 2(1,2,3) 3 4 show ?thesis by blast
qed

end
